theory Spec2Isabelle
  imports Main "HOL-Library.Word" "HOL-Library.Monad_Syntax"
begin

unbundle bit_operations_syntax

section \<open>Data model of the dependency graph\<close>

text \<open>
  The model follows \<^verbatim>\<open>deg_eval_flush.cc\<close>. Nodes live in tables owned by the graph and a
  pointer to a node is its index in the table; dereferencing a pointer that is outside
  the table, or a null result of \<^verbatim>\<open>find_component\<close>, makes the routine fail with \<open>None\<close>.

  The enumerations are declared in headers outside this file; each is modelled by the
  enumerators this file names plus one constructor standing for all the others.
\<close>

datatype eDepsOperation_Code =
    DEG_OPCODE_PARTICLE_SETTINGS_EVAL
  | DEG_OPCODE_OTHER nat

datatype eDepsNode_Type =
    DEG_NODE_TYPE_COPY_ON_WRITE
  | DEG_NODE_TYPE_BONE
  | DEG_NODE_TYPE_EVAL_POSE
  | DEG_NODE_TYPE_OTHER nat

datatype eComponentState =
    COMPONENT_STATE_NONE
  | COMPONENT_STATE_SCHEDULED
  | COMPONENT_STATE_DONE

record OperationDepsNode =
  scheduled :: bool
  flag :: "32 word"
  opcode :: eDepsOperation_Code
  outlinks :: "nat list"
  op_owner :: nat

text \<open>
  Modelled from the spec: the members \<^verbatim>\<open>get_entry_operation()\<close> and \<^verbatim>\<open>depends_on_cow()\<close>
  of a component are declared outside this file; the spec gives a component "a designated
  entry operation" and "a capability flag indicating whether it depends on a copy-on-write
  proxy", so both are fields.
\<close>

record ComponentDepsNode =
  comp_done :: eComponentState
  comp_type :: eDepsNode_Type
  comp_operations :: "nat list"
  comp_owner :: nat
  entry_operation :: nat
  depends_on_cow :: bool

text \<open>
  \<open>components\<close> is the hash of the components of the entity, as the list of its entries,
  each under the type of the component; several bone components of one entity are several
  entries of type \<open>BONE\<close>. \<^verbatim>\<open>find_component\<close> is the lookup by type and returns the first
  entry of the type asked for. \<open>id_orig_tag\<close> and \<open>id_cow_tag\<close> are the \<^verbatim>\<open>tag\<close> fields
  of \<^verbatim>\<open>id_orig\<close> and \<^verbatim>\<open>id_cow\<close>. Modelled from the spec: \<^verbatim>\<open>deg_copy_on_write_is_expanded\<close> is
  defined outside this file; the spec makes it a query on the evaluated record, here the
  field \<open>id_cow_expanded\<close>.
\<close>

record IDDepsNode =
  id_done :: bool
  components :: "(eDepsNode_Type \<times> nat) list"
  id_orig_tag :: "32 word"
  id_cow_tag :: "32 word"
  id_cow_expanded :: bool

text \<open>
  \<open>entry_tags\<close> is the set of tagged operations, as the sequence in which
  \<^verbatim>\<open>GSET_FOREACH\<close> enumerates it.
\<close>

record Depsgraph =
  operations :: "OperationDepsNode list"
  comp_nodes :: "ComponentDepsNode list"
  id_nodes :: "IDDepsNode list"
  entry_tags :: "nat list"

text \<open>
  The constants and the global switch this file reads from elsewhere are parameters.
\<close>

record flush_env =
  DEPSOP_FLAG_NEEDS_UPDATE :: "32 word"
  DEPSOP_FLAG_DIRECTLY_MODIFIED :: "32 word"
  LIB_TAG_ID_RECALC_ALL :: "32 word"
  use_copy_on_write :: bool

text \<open>
  The calls to the external collaborators cannot be run here; each is recorded, in program
  order, in a log that the routine never reads. The log also records every insertion into
  the queue, by call site, the child that by-passes the queue, and every iteration of the
  inner loop.
\<close>

datatype flush_event =
    Push_Back_Entry nat
  | Push_Front_Pose nat nat
  | Push_Front_Child nat
  | Bypass_Child nat
  | Visit nat
  | Editors_Id_Update nat
  | Lib_Id_Recalc_Tag nat
  | Lib_Id_Recalc_Data_Tag nat

record flush_state =
  graph :: Depsgraph
  queue :: "nat list"
  trace :: "flush_event list"

subsection \<open>Pointers\<close>

definition valid_op :: "Depsgraph \<Rightarrow> nat \<Rightarrow> bool" where
  "valid_op g p \<longleftrightarrow> p < length (operations g)"

definition valid_comp :: "Depsgraph \<Rightarrow> nat \<Rightarrow> bool" where
  "valid_comp g c \<longleftrightarrow> c < length (comp_nodes g)"

definition valid_id :: "Depsgraph \<Rightarrow> nat \<Rightarrow> bool" where
  "valid_id g i \<longleftrightarrow> i < length (id_nodes g)"

definition op_update :: "nat \<Rightarrow> (OperationDepsNode \<Rightarrow> OperationDepsNode) \<Rightarrow> Depsgraph \<Rightarrow> Depsgraph" where
  "op_update p f g = g\<lparr>operations := (operations g)[p := f (operations g ! p)]\<rparr>"

definition comp_update :: "nat \<Rightarrow> (ComponentDepsNode \<Rightarrow> ComponentDepsNode) \<Rightarrow> Depsgraph \<Rightarrow> Depsgraph" where
  "comp_update c f g = g\<lparr>comp_nodes := (comp_nodes g)[c := f (comp_nodes g ! c)]\<rparr>"

definition id_update :: "nat \<Rightarrow> (IDDepsNode \<Rightarrow> IDDepsNode) \<Rightarrow> Depsgraph \<Rightarrow> Depsgraph" where
  "id_update i f g = g\<lparr>id_nodes := (id_nodes g)[i := f (id_nodes g ! i)]\<rparr>"

definition find_component :: "IDDepsNode \<Rightarrow> eDepsNode_Type \<Rightarrow> nat option" where
  "find_component id_node t = map_of (components id_node) t"

section \<open>State reset\<close>

definition flush_init_operation_node_func :: "Depsgraph \<Rightarrow> nat \<Rightarrow> Depsgraph option" where
  "flush_init_operation_node_func g i =
     (if valid_op g i then Some (op_update i (\<lambda>n. n\<lparr>scheduled := False\<rparr>) g) else None)"

fun reset_components :: "nat list \<Rightarrow> Depsgraph \<Rightarrow> Depsgraph option" where
  "reset_components [] g = Some g"
| "reset_components (c # cs) g =
     (if valid_comp g c
      then reset_components cs (comp_update c (\<lambda>n. n\<lparr>comp_done := COMPONENT_STATE_NONE\<rparr>) g)
      else None)"

definition flush_init_id_node_func :: "Depsgraph \<Rightarrow> nat \<Rightarrow> Depsgraph option" where
  "flush_init_id_node_func g i =
     (if valid_id g i
      then reset_components (map snd (components (id_nodes g ! i)))
             (id_update i (\<lambda>n. n\<lparr>id_done := False\<rparr>) g)
      else None)"

text \<open>
  \<^verbatim>\<open>BLI_task_parallel_range(start, stop, data, func, use_threading)\<close> calls \<open>func\<close> on every
  index of the range. The calls touch different nodes; the model makes them in index order.
\<close>

fun BLI_task_parallel_range ::
  "nat list \<Rightarrow> (Depsgraph \<Rightarrow> nat \<Rightarrow> Depsgraph option) \<Rightarrow> Depsgraph \<Rightarrow> Depsgraph option" where
  "BLI_task_parallel_range [] func g = Some g"
| "BLI_task_parallel_range (i # is) func g =
     (case func g i of None \<Rightarrow> None | Some g' \<Rightarrow> BLI_task_parallel_range is func g')"

definition flush_prepare :: "Depsgraph \<Rightarrow> Depsgraph option" where
  "flush_prepare g =
     (case BLI_task_parallel_range [0 ..< length (operations g)] flush_init_operation_node_func g of
        None \<Rightarrow> None
      | Some g1 \<Rightarrow> BLI_task_parallel_range [0 ..< length (id_nodes g1)] flush_init_id_node_func g1)"

section \<open>Entry scheduler\<close>

fun flush_schedule_entrypoints_loop :: "nat list \<Rightarrow> flush_state \<Rightarrow> flush_state option" where
  "flush_schedule_entrypoints_loop [] s = Some s"
| "flush_schedule_entrypoints_loop (p # ps) s =
     (if valid_op (graph s) p
      then flush_schedule_entrypoints_loop ps
             (s\<lparr>queue := queue s @ [p],
                graph := op_update p (\<lambda>n. n\<lparr>scheduled := True\<rparr>) (graph s),
                trace := trace s @ [Push_Back_Entry p]\<rparr>)
      else None)"

definition flush_schedule_entrypoints :: "flush_state \<Rightarrow> flush_state option" where
  "flush_schedule_entrypoints s = flush_schedule_entrypoints_loop (entry_tags (graph s)) s"

section \<open>Entity handler\<close>

definition flush_handle_id_node :: "flush_env \<Rightarrow> nat \<Rightarrow> flush_state \<Rightarrow> flush_state option" where
  "flush_handle_id_node env i s =
     (if \<not> valid_id (graph s) i then None
      else let id_node = id_nodes (graph s) ! i in
        if id_done id_node then Some s
        else Some (s\<lparr>
          graph := id_update i
            (\<lambda>n. n\<lparr>id_done := True,
                   id_cow_tag := id_cow_tag n OR (id_orig_tag n AND LIB_TAG_ID_RECALC_ALL env)\<rparr>)
            (graph s),
          trace := trace s
            @ (if id_cow_expanded id_node then [Editors_Id_Update i] else [])
            @ [Lib_Id_Recalc_Tag i, Lib_Id_Recalc_Data_Tag i]\<rparr>))"

section \<open>Component handler\<close>

definition add_entry_tag :: "nat \<Rightarrow> nat list \<Rightarrow> nat list" where
  "add_entry_tag p es = (if p \<in> set es then es else es @ [p])"

text \<open>
  Modelled from the spec: \<^verbatim>\<open>ComponentDepsNode::tag_update\<close> is defined outside this file. The
  spec calls it "the Graph's own update-tagging entry point", "the external tag-setting entry
  point that originates entries", and says that the call "only marks that component dirty
  for a future flush": the operations of the component join the entry set.
\<close>

definition tag_update :: "nat \<Rightarrow> Depsgraph \<Rightarrow> Depsgraph option" where
  "tag_update c g =
     (if valid_comp g c
      then Some (g\<lparr>entry_tags := fold add_entry_tag (comp_operations (comp_nodes g ! c)) (entry_tags g)\<rparr>)
      else None)"

fun tag_component_operations :: "flush_env \<Rightarrow> nat list \<Rightarrow> Depsgraph \<Rightarrow> Depsgraph option" where
  "tag_component_operations env [] g = Some g"
| "tag_component_operations env (p # ps) g =
     (if \<not> valid_op g p then None
      else if opcode (operations g ! p) = DEG_OPCODE_PARTICLE_SETTINGS_EVAL
        then tag_component_operations env ps g
        else tag_component_operations env ps
               (op_update p (\<lambda>n. n\<lparr>flag := flag n OR DEPSOP_FLAG_NEEDS_UPDATE env\<rparr>) g))"

definition flush_handle_bone :: "nat \<Rightarrow> flush_state \<Rightarrow> flush_state option" where
  "flush_handle_bone i s =
     (if \<not> valid_id (graph s) i then None
      else case find_component (id_nodes (graph s) ! i) DEG_NODE_TYPE_EVAL_POSE of
        None \<Rightarrow> None
      | Some pose_comp \<Rightarrow>
          if \<not> valid_comp (graph s) pose_comp then None
          else if comp_done (comp_nodes (graph s) ! pose_comp) = COMPONENT_STATE_NONE
            then Some (s\<lparr>
              queue := entry_operation (comp_nodes (graph s) ! pose_comp) # queue s,
              graph := comp_update pose_comp (\<lambda>n. n\<lparr>comp_done := COMPONENT_STATE_SCHEDULED\<rparr>) (graph s),
              trace := trace s
                @ [Push_Front_Pose pose_comp (entry_operation (comp_nodes (graph s) ! pose_comp))]\<rparr>)
            else Some s)"

definition flush_handle_cow :: "flush_env \<Rightarrow> nat \<Rightarrow> nat \<Rightarrow> Depsgraph \<Rightarrow> Depsgraph option" where
  "flush_handle_cow env i c g =
     (if use_copy_on_write env \<and> depends_on_cow (comp_nodes g ! c)
      then (if \<not> valid_id g i then None
            else case find_component (id_nodes g ! i) DEG_NODE_TYPE_COPY_ON_WRITE of
              None \<Rightarrow> None
            | Some cow_comp \<Rightarrow> tag_update cow_comp g)
      else Some g)"

definition flush_handle_component_node ::
  "flush_env \<Rightarrow> nat \<Rightarrow> nat \<Rightarrow> flush_state \<Rightarrow> flush_state option" where
  "flush_handle_component_node env i c s =
     (if \<not> valid_comp (graph s) c then None
      else if comp_done (comp_nodes (graph s) ! c) = COMPONENT_STATE_DONE then Some s
      else do {
        g1 \<leftarrow> Some (comp_update c (\<lambda>n. n\<lparr>comp_done := COMPONENT_STATE_DONE\<rparr>) (graph s));
        g2 \<leftarrow> flush_handle_cow env i c g1;
        g3 \<leftarrow> tag_component_operations env (comp_operations (comp_nodes g2 ! c)) g2;
        if comp_type (comp_nodes g3 ! c) = DEG_NODE_TYPE_BONE
        then flush_handle_bone i (s\<lparr>graph := g3\<rparr>)
        else Some (s\<lparr>graph := g3\<rparr>)
      })"

section \<open>Scheduling the children\<close>

fun flush_schedule_children_loop ::
  "nat list \<Rightarrow> nat option \<Rightarrow> flush_state \<Rightarrow> (nat option \<times> flush_state) option" where
  "flush_schedule_children_loop [] result s = Some (result, s)"
| "flush_schedule_children_loop (to_node # rels) result s =
     (if \<not> valid_op (graph s) to_node then None
      else if scheduled (operations (graph s) ! to_node)
        then flush_schedule_children_loop rels result s
        else (case result of
          Some r \<Rightarrow> flush_schedule_children_loop rels result
            (s\<lparr>queue := to_node # queue s,
               graph := op_update to_node (\<lambda>n. n\<lparr>scheduled := True\<rparr>) (graph s),
               trace := trace s @ [Push_Front_Child to_node]\<rparr>)
        | None \<Rightarrow> flush_schedule_children_loop rels (Some to_node)
            (s\<lparr>graph := op_update to_node (\<lambda>n. n\<lparr>scheduled := True\<rparr>) (graph s),
               trace := trace s @ [Bypass_Child to_node]\<rparr>)))"

definition flush_schedule_children :: "nat \<Rightarrow> flush_state \<Rightarrow> (nat option \<times> flush_state) option" where
  "flush_schedule_children p s =
     (if \<not> valid_op (graph s) p then None
      else flush_schedule_children_loop (outlinks (operations (graph s) ! p)) None s)"

section \<open>Propagation\<close>

text \<open>The body of the inner loop, for the operation \<open>p\<close>.\<close>

definition flush_visit :: "flush_env \<Rightarrow> nat \<Rightarrow> flush_state \<Rightarrow> (nat option \<times> flush_state) option" where
  "flush_visit env p s =
     (if \<not> valid_op (graph s) p then None
      else do {
        s1 \<leftarrow> Some (s\<lparr>
          graph := op_update p (\<lambda>n. n\<lparr>flag := flag n OR DEPSOP_FLAG_NEEDS_UPDATE env\<rparr>) (graph s),
          trace := trace s @ [Visit p]\<rparr>);
        c \<leftarrow> Some (op_owner (operations (graph s1) ! p));
        i \<leftarrow> (if valid_comp (graph s1) c then Some (comp_owner (comp_nodes (graph s1) ! c)) else None);
        s2 \<leftarrow> flush_handle_id_node env i s1;
        s3 \<leftarrow> flush_handle_component_node env i c s2;
        flush_schedule_children p s3
      })"


lemma op_update_frame [simp]:
  "comp_nodes (op_update p f g) = comp_nodes g"
  "id_nodes (op_update p f g) = id_nodes g"
  "entry_tags (op_update p f g) = entry_tags g"
  "length (operations (op_update p f g)) = length (operations g)"
  by (simp_all add: op_update_def)

lemma comp_update_frame [simp]:
  "operations (comp_update c f g) = operations g"
  "id_nodes (comp_update c f g) = id_nodes g"
  "entry_tags (comp_update c f g) = entry_tags g"
  "length (comp_nodes (comp_update c f g)) = length (comp_nodes g)"
  by (simp_all add: comp_update_def)

lemma id_update_frame [simp]:
  "operations (id_update i f g) = operations g"
  "comp_nodes (id_update i f g) = comp_nodes g"
  "entry_tags (id_update i f g) = entry_tags g"
  "length (id_nodes (id_update i f g)) = length (id_nodes g)"
  by (simp_all add: id_update_def)

lemma op_update_nth:
  "operations (op_update p f g) ! q =
     (if q = p \<and> p < length (operations g) then f (operations g ! p) else operations g ! q)"
  by (cases "p < length (operations g)") (simp_all add: op_update_def nth_list_update list_update_beyond)

lemma comp_update_nth:
  "comp_nodes (comp_update c f g) ! d =
     (if d = c \<and> c < length (comp_nodes g) then f (comp_nodes g ! c) else comp_nodes g ! d)"
  by (cases "c < length (comp_nodes g)") (simp_all add: comp_update_def nth_list_update list_update_beyond)

lemma id_update_nth:
  "id_nodes (id_update i f g) ! j =
     (if j = i \<and> i < length (id_nodes g) then f (id_nodes g ! i) else id_nodes g ! j)"
  by (cases "i < length (id_nodes g)") (simp_all add: id_update_def nth_list_update list_update_beyond)

lemma valid_update [simp]:
  "valid_op (op_update p f g) q = valid_op g q"
  "valid_comp (op_update p f g) c = valid_comp g c"
  "valid_id (op_update p f g) i = valid_id g i"
  "valid_op (comp_update c' f' g) q = valid_op g q"
  "valid_comp (comp_update c' f' g) c = valid_comp g c"
  "valid_id (comp_update c' f' g) i = valid_id g i"
  "valid_op (id_update i' f'' g) q = valid_op g q"
  "valid_comp (id_update i' f'' g) c = valid_comp g c"
  "valid_id (id_update i' f'' g) i = valid_id g i"
  by (simp_all add: valid_op_def valid_comp_def valid_id_def)

lemma length_filter_update:
  "p < length xs \<Longrightarrow>
   length (filter P (xs[p := x])) + (if P (xs ! p) then 1 else 0)
     = length (filter P xs) + (if P x then 1 else 0)"
proof (induction xs arbitrary: p)
  case Nil
  then show ?case by simp
next
  case (Cons a xs)
  then show ?case by (cases p) auto
qed

definition unscheduled :: "Depsgraph \<Rightarrow> nat" where
  "unscheduled g = length (filter (\<lambda>n. \<not> scheduled n) (operations g))"

definition unhandled :: "Depsgraph \<Rightarrow> nat" where
  "unhandled g = length (filter (\<lambda>n. comp_done n = COMPONENT_STATE_NONE) (comp_nodes g))"

lemma unscheduled_frame [simp]:
  "unscheduled (comp_update c f g) = unscheduled g"
  "unscheduled (id_update i f' g) = unscheduled g"
  "unscheduled (g\<lparr>entry_tags := es\<rparr>) = unscheduled g"
  by (simp_all add: unscheduled_def)

lemma unhandled_frame [simp]:
  "unhandled (op_update p f g) = unhandled g"
  "unhandled (id_update i f' g) = unhandled g"
  "unhandled (g\<lparr>entry_tags := es\<rparr>) = unhandled g"
  by (simp_all add: unhandled_def)

lemma unscheduled_op_update_same:
  "scheduled (f (operations g ! p)) = scheduled (operations g ! p) \<Longrightarrow>
   unscheduled (op_update p f g) = unscheduled g"
  using length_filter_update [of p "operations g" "\<lambda>n. \<not> scheduled n" "f (operations g ! p)"]
  by (cases "p < length (operations g)") (auto simp: unscheduled_def op_update_def list_update_beyond)

lemma unscheduled_op_update_schedule:
  "valid_op g p \<Longrightarrow> \<not> scheduled (operations g ! p) \<Longrightarrow>
   Suc (unscheduled (op_update p (\<lambda>n. n\<lparr>scheduled := True\<rparr>) g)) = unscheduled g"
  using length_filter_update [of p "operations g" "\<lambda>n. \<not> scheduled n"
      "(operations g ! p)\<lparr>scheduled := True\<rparr>"]
  by (auto simp: unscheduled_def op_update_def valid_op_def)

lemma unhandled_comp_update_le:
  "comp_done (f (comp_nodes g ! c)) \<noteq> COMPONENT_STATE_NONE \<Longrightarrow>
   unhandled (comp_update c f g) \<le> unhandled g"
  using length_filter_update [of c "comp_nodes g" "\<lambda>n. comp_done n = COMPONENT_STATE_NONE"
      "f (comp_nodes g ! c)"]
  by (cases "c < length (comp_nodes g)") (auto simp: unhandled_def comp_update_def list_update_beyond split: if_splits)

lemma unhandled_comp_update_less:
  "valid_comp g c \<Longrightarrow> comp_done (comp_nodes g ! c) = COMPONENT_STATE_NONE \<Longrightarrow>
   comp_done (f (comp_nodes g ! c)) \<noteq> COMPONENT_STATE_NONE \<Longrightarrow>
   Suc (unhandled (comp_update c f g)) = unhandled g"
  using length_filter_update [of c "comp_nodes g" "\<lambda>n. comp_done n = COMPONENT_STATE_NONE"
      "f (comp_nodes g ! c)"]
  by (auto simp: unhandled_def comp_update_def valid_comp_def)


lemma flush_handle_id_node_frame:
  assumes "flush_handle_id_node env i s = Some s'"
  shows "operations (graph s') = operations (graph s)"
    and "comp_nodes (graph s') = comp_nodes (graph s)"
    and "entry_tags (graph s') = entry_tags (graph s)"
    and "queue s' = queue s"
  using assms by (auto simp: flush_handle_id_node_def Let_def split: if_splits)

lemma tag_update_frame:
  assumes "tag_update c g = Some g'"
  shows "operations g' = operations g"
    and "comp_nodes g' = comp_nodes g"
    and "id_nodes g' = id_nodes g"
  using assms by (auto simp: tag_update_def split: if_splits)

lemma flush_handle_cow_frame:
  assumes "flush_handle_cow env i c g = Some g'"
  shows "operations g' = operations g"
    and "comp_nodes g' = comp_nodes g"
    and "id_nodes g' = id_nodes g"
  using assms
  by (auto simp: flush_handle_cow_def dest: tag_update_frame split: if_splits option.splits)

lemma tag_component_operations_frame:
  assumes "tag_component_operations env ps g = Some g'"
  shows "comp_nodes g' = comp_nodes g"
    and "id_nodes g' = id_nodes g"
    and "entry_tags g' = entry_tags g"
    and "unscheduled g' = unscheduled g"
  using assms
  by (induction env ps g rule: tag_component_operations.induct;
      simp add: unscheduled_op_update_same split: if_splits)+

lemma flush_handle_bone_measure:
  assumes "flush_handle_bone i s = Some s'"
  shows "operations (graph s') = operations (graph s)"
    and "unhandled (graph s') + length (queue s') \<le> unhandled (graph s) + length (queue s)"
  using assms
  by (auto simp: flush_handle_bone_def split: if_splits option.splits
      dest: unhandled_comp_update_less [where f = "\<lambda>n. n\<lparr>comp_done := COMPONENT_STATE_SCHEDULED\<rparr>"])

lemma flush_handle_component_node_measure:
  assumes "flush_handle_component_node env i c s = Some s'"
  shows "unscheduled (graph s') = unscheduled (graph s)"
    and "unhandled (graph s') + length (queue s') \<le> unhandled (graph s) + length (queue s)"
proof -
  show "unscheduled (graph s') = unscheduled (graph s)"
    using assms
    by (auto simp: flush_handle_component_node_def unscheduled_def
        split: if_splits Option.bind_splits
        dest!: flush_handle_cow_frame(1) tag_component_operations_frame(4) flush_handle_bone_measure(1))
next
  have le: "unhandled (comp_update c (\<lambda>n. n\<lparr>comp_done := COMPONENT_STATE_DONE\<rparr>) (graph s))
              \<le> unhandled (graph s)"
    by (rule unhandled_comp_update_le) simp
  show "unhandled (graph s') + length (queue s') \<le> unhandled (graph s) + length (queue s)"
    using assms le
    by (auto simp: flush_handle_component_node_def unhandled_def
        split: if_splits Option.bind_splits
        dest!: flush_handle_cow_frame(2) tag_component_operations_frame(1) flush_handle_bone_measure(2))
qed

lemma flush_schedule_children_loop_measure:
  "flush_schedule_children_loop rels r s = Some (r', s') \<Longrightarrow>
     comp_nodes (graph s') = comp_nodes (graph s)
   \<and> unscheduled (graph s') + length (queue s') + (case r' of None \<Rightarrow> 0 | Some _ \<Rightarrow> 1)
         = unscheduled (graph s) + length (queue s) + (case r of None \<Rightarrow> 0 | Some _ \<Rightarrow> 1)
   \<and> (r \<noteq> None \<longrightarrow> r' \<noteq> None)"
proof (induction rels r s rule: flush_schedule_children_loop.induct)
  case (1 result s)
  then show ?case by simp
next
  case (2 to_node rels result s)
  show ?case
  proof (cases "scheduled (operations (graph s) ! to_node)")
    case True
    with 2 show ?thesis by (auto split: if_splits)
  next
    case False
    with 2(4) have v: "valid_op (graph s) to_node" by (auto split: if_splits)
    note dec = unscheduled_op_update_schedule [OF v False]
    show ?thesis
    proof (cases result)
      case None
      with 2(2) [OF _ False None] 2(4) v False dec show ?thesis by auto
    next
      case (Some a)
      with 2(3) [OF _ False Some] 2(4) v False dec show ?thesis by auto
    qed
  qed
qed


lemma flush_schedule_children_measure:
  assumes "flush_schedule_children p s = Some (r', s')"
  shows "comp_nodes (graph s') = comp_nodes (graph s)"
    and "unscheduled (graph s') + length (queue s') + (case r' of None \<Rightarrow> 0 | Some _ \<Rightarrow> 1)
           = unscheduled (graph s) + length (queue s)"
  using assms flush_schedule_children_loop_measure [of "outlinks (operations (graph s) ! p)" None s r' s']
  by (auto simp: flush_schedule_children_def split: if_splits)

section \<open>The propagation loop\<close>

definition flush_measure :: "nat option \<Rightarrow> flush_state \<Rightarrow> nat" where
  "flush_measure op_node s =
     2 * unscheduled (graph s) + 2 * unhandled (graph s) + 2 * length (queue s)
       + (case op_node of None \<Rightarrow> 0 | Some _ \<Rightarrow> 1)"

lemma flush_visit_measure:
  assumes "flush_visit env p s = Some (r', s')"
  shows "flush_measure r' s' < flush_measure (Some p) s"
proof -
  from assms obtain s1 s2 s3 i where
    s1: "s1 = s\<lparr>graph := op_update p (\<lambda>n. n\<lparr>flag := flag n OR DEPSOP_FLAG_NEEDS_UPDATE env\<rparr>) (graph s),
                 trace := trace s @ [Visit p]\<rparr>"
    and s2: "flush_handle_id_node env i s1 = Some s2"
    and s3: "flush_handle_component_node env i (op_owner (operations (graph s1) ! p)) s2 = Some s3"
    and ch: "flush_schedule_children p s3 = Some (r', s')"
    by (auto simp: flush_visit_def split: if_splits Option.bind_splits)
  have m1: "unscheduled (graph s1) = unscheduled (graph s)" "unhandled (graph s1) = unhandled (graph s)"
    "queue s1 = queue s"
    by (simp_all add: s1 unscheduled_op_update_same)
  have m2: "unscheduled (graph s2) = unscheduled (graph s1)" "unhandled (graph s2) = unhandled (graph s1)"
    "queue s2 = queue s1"
    using flush_handle_id_node_frame [OF s2] by (simp_all add: unscheduled_def unhandled_def)
  note m3 = flush_handle_component_node_measure [OF s3]
  have m4: "unhandled (graph s') = unhandled (graph s3)"
    using flush_schedule_children_measure(1) [OF ch] by (simp add: unhandled_def)
  note m5 = flush_schedule_children_measure(2) [OF ch]
  show ?thesis
    using m1 m2 m3 m4 m5 by (cases r') (simp_all add: flush_measure_def)
qed

text \<open>
  The two nested loops of \<^verbatim>\<open>deg_graph_flush_updates\<close>, with the variable \<open>op_node\<close> of the
  inner loop as an argument: \<open>None\<close> is the null pointer that ends the inner loop.
\<close>

function flush_loop :: "flush_env \<Rightarrow> nat option \<Rightarrow> flush_state \<Rightarrow> flush_state option" where
  "flush_loop env op_node s =
     (case op_node of
        Some p \<Rightarrow>
          (case flush_visit env p s of
             None \<Rightarrow> None
           | Some (op_node', s') \<Rightarrow> flush_loop env op_node' s')
      | None \<Rightarrow>
          (case queue s of
             [] \<Rightarrow> Some s
           | p # q \<Rightarrow> flush_loop env (Some p) (s\<lparr>queue := q\<rparr>)))"
  by pat_completeness auto
termination
proof (relation "measure (\<lambda>(env, op_node, s). flush_measure op_node s)", goal_cases)
  case 1
  then show ?case by simp
next
  case 2
  then show ?case by (simp add: flush_measure_def)
next
  case 3
  then show ?case using flush_visit_measure by auto
qed

definition deg_graph_flush_updates :: "flush_env \<Rightarrow> Depsgraph \<Rightarrow> flush_state option" where
  "deg_graph_flush_updates env g =
     (if entry_tags g = [] then Some \<lparr>graph = g, queue = [], trace = []\<rparr>
      else do {
        g1 \<leftarrow> flush_prepare g;
        s1 \<leftarrow> flush_schedule_entrypoints \<lparr>graph = g1, queue = [], trace = []\<rparr>;
        flush_loop env None s1
      })"

section \<open>Tag clear\<close>

definition graph_clear_func :: "flush_env \<Rightarrow> Depsgraph \<Rightarrow> nat \<Rightarrow> Depsgraph option" where
  "graph_clear_func env g i =
     (if valid_op g i
      then Some (op_update i
        (\<lambda>n. n\<lparr>flag := flag n AND NOT (DEPSOP_FLAG_DIRECTLY_MODIFIED env OR DEPSOP_FLAG_NEEDS_UPDATE env)\<rparr>) g)
      else None)"

definition deg_graph_clear_tags :: "flush_env \<Rightarrow> Depsgraph \<Rightarrow> Depsgraph option" where
  "deg_graph_clear_tags env g =
     (case BLI_task_parallel_range [0 ..< length (operations g)] (graph_clear_func env) g of
        None \<Rightarrow> None
      | Some g1 \<Rightarrow> Some (g1\<lparr>entry_tags := []\<rparr>))"


section \<open>The structure of the graph, which a flush never changes\<close>

definition op_shape :: "OperationDepsNode \<Rightarrow> eDepsOperation_Code \<times> nat list \<times> nat" where
  "op_shape n = (opcode n, outlinks n, op_owner n)"

definition comp_shape ::
  "ComponentDepsNode \<Rightarrow> eDepsNode_Type \<times> nat list \<times> nat \<times> nat \<times> bool" where
  "comp_shape n = (comp_type n, comp_operations n, comp_owner n, entry_operation n, depends_on_cow n)"

definition id_shape :: "IDDepsNode \<Rightarrow> (eDepsNode_Type \<times> nat) list \<times> 32 word \<times> bool" where
  "id_shape n = (components n, id_orig_tag n, id_cow_expanded n)"

definition shape ::
  "Depsgraph \<Rightarrow> (eDepsOperation_Code \<times> nat list \<times> nat) list
     \<times> (eDepsNode_Type \<times> nat list \<times> nat \<times> nat \<times> bool) list
     \<times> ((eDepsNode_Type \<times> nat) list \<times> 32 word \<times> bool) list" where
  "shape g = (map op_shape (operations g), map comp_shape (comp_nodes g), map id_shape (id_nodes g))"

lemma map_update_same: "f x = f (xs ! p) \<Longrightarrow> map f (xs[p := x]) = map f xs"
  by (cases "p < length xs") (simp_all add: map_update list_update_same_conv list_update_beyond)

lemma shape_op_update:
  "op_shape (f (operations g ! p)) = op_shape (operations g ! p) \<Longrightarrow> shape (op_update p f g) = shape g"
  by (simp add: shape_def op_update_def map_update_same)

lemma shape_comp_update:
  "comp_shape (f (comp_nodes g ! c)) = comp_shape (comp_nodes g ! c) \<Longrightarrow>
   shape (comp_update c f g) = shape g"
  by (simp add: shape_def comp_update_def map_update_same)

lemma shape_id_update:
  "id_shape (f (id_nodes g ! i)) = id_shape (id_nodes g ! i) \<Longrightarrow> shape (id_update i f g) = shape g"
  by (simp add: shape_def id_update_def map_update_same)

lemma shape_entry_tags [simp]: "shape (g\<lparr>entry_tags := es\<rparr>) = shape g"
  by (simp add: shape_def)

lemma shape_simps [simp]:
  "shape (op_update p (\<lambda>n. n\<lparr>scheduled := b\<rparr>) g) = shape g"
  "shape (op_update p (\<lambda>n. n\<lparr>flag := w n\<rparr>) g) = shape g"
  "shape (comp_update c (\<lambda>n. n\<lparr>comp_done := d\<rparr>) g) = shape g"
  "shape (id_update i (\<lambda>n. n\<lparr>id_done := b\<rparr>) g) = shape g"
  "shape (id_update i (\<lambda>n. n\<lparr>id_done := b, id_cow_tag := t n\<rparr>) g) = shape g"
  by (simp_all add: shape_op_update shape_comp_update shape_id_update
      op_shape_def comp_shape_def id_shape_def)

lemma shape_eqD:
  assumes "shape g' = shape g"
  shows "length (operations g') = length (operations g)"
    and "length (comp_nodes g') = length (comp_nodes g)"
    and "length (id_nodes g') = length (id_nodes g)"
    and "p < length (operations g) \<Longrightarrow> op_shape (operations g' ! p) = op_shape (operations g ! p)"
    and "c < length (comp_nodes g) \<Longrightarrow> comp_shape (comp_nodes g' ! c) = comp_shape (comp_nodes g ! c)"
    and "i < length (id_nodes g) \<Longrightarrow> id_shape (id_nodes g' ! i) = id_shape (id_nodes g ! i)"
proof -
  from assms have m: "map op_shape (operations g') = map op_shape (operations g)"
    "map comp_shape (comp_nodes g') = map comp_shape (comp_nodes g)"
    "map id_shape (id_nodes g') = map id_shape (id_nodes g)"
    by (simp_all add: shape_def)
  show l1: "length (operations g') = length (operations g)" using m(1) by (rule map_eq_imp_length_eq)
  show l2: "length (comp_nodes g') = length (comp_nodes g)" using m(2) by (rule map_eq_imp_length_eq)
  show l3: "length (id_nodes g') = length (id_nodes g)" using m(3) by (rule map_eq_imp_length_eq)
  show "p < length (operations g) \<Longrightarrow> op_shape (operations g' ! p) = op_shape (operations g ! p)"
    using m(1) l1 by (metis nth_map)
  show "c < length (comp_nodes g) \<Longrightarrow> comp_shape (comp_nodes g' ! c) = comp_shape (comp_nodes g ! c)"
    using m(2) l2 by (metis nth_map)
  show "i < length (id_nodes g) \<Longrightarrow> id_shape (id_nodes g' ! i) = id_shape (id_nodes g ! i)"
    using m(3) l3 by (metis nth_map)
qed

lemma shape_valid:
  assumes "shape g' = shape g"
  shows "valid_op g' p = valid_op g p" "valid_comp g' c = valid_comp g c" "valid_id g' i = valid_id g i"
  using shape_eqD(1-3) [OF assms] by (simp_all add: valid_op_def valid_comp_def valid_id_def)

lemma shape_fields:
  assumes "shape g' = shape g"
  shows "valid_op g p \<Longrightarrow> opcode (operations g' ! p) = opcode (operations g ! p)"
    and "valid_op g p \<Longrightarrow> outlinks (operations g' ! p) = outlinks (operations g ! p)"
    and "valid_op g p \<Longrightarrow> op_owner (operations g' ! p) = op_owner (operations g ! p)"
    and "valid_comp g c \<Longrightarrow> comp_type (comp_nodes g' ! c) = comp_type (comp_nodes g ! c)"
    and "valid_comp g c \<Longrightarrow> comp_operations (comp_nodes g' ! c) = comp_operations (comp_nodes g ! c)"
    and "valid_comp g c \<Longrightarrow> comp_owner (comp_nodes g' ! c) = comp_owner (comp_nodes g ! c)"
    and "valid_comp g c \<Longrightarrow> entry_operation (comp_nodes g' ! c) = entry_operation (comp_nodes g ! c)"
    and "valid_comp g c \<Longrightarrow> depends_on_cow (comp_nodes g' ! c) = depends_on_cow (comp_nodes g ! c)"
    and "valid_id g i \<Longrightarrow> components (id_nodes g' ! i) = components (id_nodes g ! i)"
    and "valid_id g i \<Longrightarrow> id_cow_expanded (id_nodes g' ! i) = id_cow_expanded (id_nodes g ! i)"
  using shape_eqD(4) [OF assms, of p] shape_eqD(5) [OF assms, of c] shape_eqD(6) [OF assms, of i]
  by (simp_all add: op_shape_def comp_shape_def id_shape_def valid_op_def valid_comp_def valid_id_def)

subsection \<open>Every routine keeps the structure\<close>

lemma reset_components_shape: "reset_components cs g = Some g' \<Longrightarrow> shape g' = shape g"
  by (induction cs g rule: reset_components.induct) (auto split: if_splits)

lemma BLI_task_parallel_range_shape:
  assumes "\<And>g i g'. func g i = Some g' \<Longrightarrow> shape g' = shape g"
  shows "BLI_task_parallel_range is func g = Some g' \<Longrightarrow> shape g' = shape g"
proof (induction "is" arbitrary: g)
  case Nil
  then show ?case by simp
next
  case (Cons i "is")
  then show ?case using assms by (auto split: option.splits)
qed

lemma flush_prepare_shape:
  assumes "flush_prepare g = Some g'"
  shows "shape g' = shape g"
proof -
  from assms obtain g1 where
    1: "BLI_task_parallel_range [0 ..< length (operations g)] flush_init_operation_node_func g = Some g1"
    and 2: "BLI_task_parallel_range [0 ..< length (id_nodes g1)] flush_init_id_node_func g1 = Some g'"
    by (auto simp: flush_prepare_def split: option.splits)
  have "shape g1 = shape g"
    using 1 by (rule BLI_task_parallel_range_shape [rotated])
      (auto simp: flush_init_operation_node_func_def split: if_splits)
  moreover have "shape g' = shape g1"
    using 2 by (rule BLI_task_parallel_range_shape [rotated])
      (auto simp: flush_init_id_node_func_def split: if_splits dest!: reset_components_shape)
  ultimately show ?thesis by simp
qed

lemma flush_schedule_entrypoints_loop_shape:
  "flush_schedule_entrypoints_loop ps s = Some s' \<Longrightarrow> shape (graph s') = shape (graph s)"
  by (induction ps s rule: flush_schedule_entrypoints_loop.induct) (auto split: if_splits)

lemma flush_handle_id_node_shape:
  "flush_handle_id_node env i s = Some s' \<Longrightarrow> shape (graph s') = shape (graph s)"
  by (auto simp: flush_handle_id_node_def Let_def split: if_splits)

lemma tag_update_shape: "tag_update c g = Some g' \<Longrightarrow> shape g' = shape g"
  by (auto simp: tag_update_def split: if_splits)

lemma flush_handle_cow_shape: "flush_handle_cow env i c g = Some g' \<Longrightarrow> shape g' = shape g"
  by (auto simp: flush_handle_cow_def split: if_splits option.splits dest: tag_update_shape)

lemma tag_component_operations_shape:
  "tag_component_operations env ps g = Some g' \<Longrightarrow> shape g' = shape g"
  by (induction env ps g rule: tag_component_operations.induct) (auto split: if_splits)

lemma flush_handle_bone_shape:
  "flush_handle_bone i s = Some s' \<Longrightarrow> shape (graph s') = shape (graph s)"
  by (auto simp: flush_handle_bone_def split: if_splits option.splits)

lemma flush_handle_component_node_shape:
  "flush_handle_component_node env i c s = Some s' \<Longrightarrow> shape (graph s') = shape (graph s)"
  by (auto simp: flush_handle_component_node_def split: if_splits Option.bind_splits
      dest!: flush_handle_cow_shape tag_component_operations_shape flush_handle_bone_shape)

lemma flush_schedule_children_loop_shape:
  "flush_schedule_children_loop rels r s = Some (r', s') \<Longrightarrow> shape (graph s') = shape (graph s)"
  by (induction rels r s rule: flush_schedule_children_loop.induct)
     (auto split: if_splits option.splits)

lemma flush_schedule_children_shape:
  "flush_schedule_children p s = Some (r', s') \<Longrightarrow> shape (graph s') = shape (graph s)"
  by (auto simp: flush_schedule_children_def split: if_splits dest: flush_schedule_children_loop_shape)

lemma flush_visit_shape:
  "flush_visit env p s = Some (r', s') \<Longrightarrow> shape (graph s') = shape (graph s)"
  by (auto simp: flush_visit_def split: if_splits Option.bind_splits
      dest!: flush_handle_id_node_shape flush_handle_component_node_shape flush_schedule_children_shape)


section \<open>Well-formed graphs\<close>

text \<open>
  A graph is well formed when every pointer stored in it points into its tables, every
  bone component has a pose sibling, every component that depends on copy-on-write has a
  copy-on-write sibling when that mode is on, and the entry set lists each operation once.
\<close>

definition wf_struct :: "flush_env \<Rightarrow> Depsgraph \<Rightarrow> bool" where
  "wf_struct env g \<longleftrightarrow>
     (\<forall>n \<in> set (operations g).
        valid_comp g (op_owner n) \<and> (\<forall>t \<in> set (outlinks n). valid_op g t))
   \<and> (\<forall>n \<in> set (comp_nodes g).
        valid_id g (comp_owner n)
      \<and> (\<forall>p \<in> set (comp_operations n). valid_op g p)
      \<and> (comp_type n = DEG_NODE_TYPE_BONE \<longrightarrow>
            find_component (id_nodes g ! comp_owner n) DEG_NODE_TYPE_EVAL_POSE \<noteq> None)
      \<and> (use_copy_on_write env \<and> depends_on_cow n \<longrightarrow>
            find_component (id_nodes g ! comp_owner n) DEG_NODE_TYPE_COPY_ON_WRITE \<noteq> None))
   \<and> (\<forall>n \<in> set (id_nodes g).
        (\<forall>c \<in> set (map snd (components n)). valid_comp g c)
      \<and> (case find_component n DEG_NODE_TYPE_EVAL_POSE of
            None \<Rightarrow> True
          | Some c \<Rightarrow> valid_op g (entry_operation (comp_nodes g ! c))))"

definition wf_graph :: "flush_env \<Rightarrow> Depsgraph \<Rightarrow> bool" where
  "wf_graph env g \<longleftrightarrow>
     wf_struct env g \<and> (\<forall>p \<in> set (entry_tags g). valid_op g p) \<and> distinct (entry_tags g)"

lemma wf_struct_opD:
  assumes "wf_struct env g" "valid_op g p"
  shows "valid_comp g (op_owner (operations g ! p))"
    and "t \<in> set (outlinks (operations g ! p)) \<Longrightarrow> valid_op g t"
  using assms by (auto simp: wf_struct_def valid_op_def)

lemma wf_struct_compD:
  assumes "wf_struct env g" "valid_comp g c"
  shows "valid_id g (comp_owner (comp_nodes g ! c))"
    and "p \<in> set (comp_operations (comp_nodes g ! c)) \<Longrightarrow> valid_op g p"
    and "comp_type (comp_nodes g ! c) = DEG_NODE_TYPE_BONE \<Longrightarrow>
           find_component (id_nodes g ! comp_owner (comp_nodes g ! c)) DEG_NODE_TYPE_EVAL_POSE \<noteq> None"
    and "use_copy_on_write env \<Longrightarrow> depends_on_cow (comp_nodes g ! c) \<Longrightarrow>
           find_component (id_nodes g ! comp_owner (comp_nodes g ! c)) DEG_NODE_TYPE_COPY_ON_WRITE \<noteq> None"
  using assms by (auto simp: wf_struct_def valid_comp_def)

lemma find_component_in:
  "find_component n t = Some c \<Longrightarrow> c \<in> set (map snd (components n))"
  by (auto simp: find_component_def dest!: map_of_SomeD intro: rev_image_eqI)

lemma wf_struct_idD:
  assumes "wf_struct env g" "valid_id g i"
  shows "find_component (id_nodes g ! i) t = Some c \<Longrightarrow> valid_comp g c"
    and "c' \<in> set (map snd (components (id_nodes g ! i))) \<Longrightarrow> valid_comp g c'"
    and "find_component (id_nodes g ! i) DEG_NODE_TYPE_EVAL_POSE = Some c \<Longrightarrow>
           valid_op g (entry_operation (comp_nodes g ! c))"
proof -
  have n: "id_nodes g ! i \<in> set (id_nodes g)" using assms(2) by (simp add: valid_id_def)
  with assms(1) have a: "\<forall>c \<in> set (map snd (components (id_nodes g ! i))). valid_comp g c"
    and b: "(case find_component (id_nodes g ! i) DEG_NODE_TYPE_EVAL_POSE of
            None \<Rightarrow> True
          | Some c \<Rightarrow> valid_op g (entry_operation (comp_nodes g ! c)))"
    unfolding wf_struct_def by blast+
  show "find_component (id_nodes g ! i) t = Some c \<Longrightarrow> valid_comp g c"
    using a find_component_in by blast
  show "c' \<in> set (map snd (components (id_nodes g ! i))) \<Longrightarrow> valid_comp g c'"
    using a by blast
  show "find_component (id_nodes g ! i) DEG_NODE_TYPE_EVAL_POSE = Some c \<Longrightarrow>
           valid_op g (entry_operation (comp_nodes g ! c))"
    using b by simp
qed

lemma wf_struct_shape:
  assumes "shape g' = shape g"
  shows "wf_struct env g' = wf_struct env g"
proof -
  note v = shape_valid [OF assms]
  note l = shape_eqD(1-3) [OF assms]
  note f = shape_fields [OF assms]
  have v': "\<And>p. p < length (operations g) \<Longrightarrow> valid_op g p"
    "\<And>p. p < length (comp_nodes g) \<Longrightarrow> valid_comp g p"
    "\<And>p. p < length (id_nodes g) \<Longrightarrow> valid_id g p"
    by (simp_all add: valid_op_def valid_comp_def valid_id_def)
  have 1: "(\<forall>n \<in> set (operations g').
        valid_comp g' (op_owner n) \<and> (\<forall>t \<in> set (outlinks n). valid_op g' t))
     = (\<forall>n \<in> set (operations g).
        valid_comp g (op_owner n) \<and> (\<forall>t \<in> set (outlinks n). valid_op g t))"
    unfolding all_set_conv_all_nth l v using f(2,3) v'(1) by auto
  have 2: "(\<forall>n \<in> set (comp_nodes g').
        valid_id g' (comp_owner n)
      \<and> (\<forall>p \<in> set (comp_operations n). valid_op g' p)
      \<and> (comp_type n = DEG_NODE_TYPE_BONE \<longrightarrow>
            find_component (id_nodes g' ! comp_owner n) DEG_NODE_TYPE_EVAL_POSE \<noteq> None)
      \<and> (use_copy_on_write env \<and> depends_on_cow n \<longrightarrow>
            find_component (id_nodes g' ! comp_owner n) DEG_NODE_TYPE_COPY_ON_WRITE \<noteq> None))
     = (\<forall>n \<in> set (comp_nodes g).
        valid_id g (comp_owner n)
      \<and> (\<forall>p \<in> set (comp_operations n). valid_op g p)
      \<and> (comp_type n = DEG_NODE_TYPE_BONE \<longrightarrow>
            find_component (id_nodes g ! comp_owner n) DEG_NODE_TYPE_EVAL_POSE \<noteq> None)
      \<and> (use_copy_on_write env \<and> depends_on_cow n \<longrightarrow>
            find_component (id_nodes g ! comp_owner n) DEG_NODE_TYPE_COPY_ON_WRITE \<noteq> None))"
    unfolding all_set_conv_all_nth l v using f(4-9) v'(2)
    by (auto simp: find_component_def)
  have 3: "(\<forall>n \<in> set (id_nodes g').
        (\<forall>c \<in> set (map snd (components n)). valid_comp g' c)
      \<and> (case find_component n DEG_NODE_TYPE_EVAL_POSE of
            None \<Rightarrow> True
          | Some c \<Rightarrow> valid_op g' (entry_operation (comp_nodes g' ! c))))
     = (\<forall>n \<in> set (id_nodes g).
        (\<forall>c \<in> set (map snd (components n)). valid_comp g c)
      \<and> (case find_component n DEG_NODE_TYPE_EVAL_POSE of
            None \<Rightarrow> True
          | Some c \<Rightarrow> valid_op g (entry_operation (comp_nodes g ! c))))"
  proof -
    have "((\<forall>c \<in> set (map snd (components (id_nodes g' ! i))). valid_comp g' c)
      \<and> (case find_component (id_nodes g' ! i) DEG_NODE_TYPE_EVAL_POSE of
            None \<Rightarrow> True
          | Some c \<Rightarrow> valid_op g' (entry_operation (comp_nodes g' ! c))))
     = ((\<forall>c \<in> set (map snd (components (id_nodes g ! i))). valid_comp g c)
      \<and> (case find_component (id_nodes g ! i) DEG_NODE_TYPE_EVAL_POSE of
            None \<Rightarrow> True
          | Some c \<Rightarrow> valid_op g (entry_operation (comp_nodes g ! c))))"
      if "i < length (id_nodes g)" for i
    proof -
      have c: "components (id_nodes g' ! i) = components (id_nodes g ! i)"
        using f(9) v'(3) that by blast
      then have fc: "find_component (id_nodes g' ! i) = find_component (id_nodes g ! i)"
        by (auto simp: find_component_def)
      show ?thesis
        unfolding c fc v
        by (rule conj_cong [OF refl])
           (auto split: option.splits dest!: find_component_in,
            (metis f(7) snd_conv)+)
    qed
    then show ?thesis unfolding all_set_conv_all_nth l by blast
  qed
  show ?thesis unfolding wf_struct_def 1 2 3 ..
qed


section \<open>Reasoning about the loop\<close>

lemma flush_loop_rule:
  assumes "flush_loop env a s = Some s'"
    and "I a s"
    and "\<And>p s r s1. I (Some p) s \<Longrightarrow> flush_visit env p s = Some (r, s1) \<Longrightarrow> I r s1"
    and "\<And>p q s. I None s \<Longrightarrow> queue s = p # q \<Longrightarrow> I (Some p) (s\<lparr>queue := q\<rparr>)"
  shows "I None s' \<and> queue s' = []"
  using assms
proof (induction env a s rule: flush_loop.induct)
  case (1 env op_node s)
  note visit = 1(5) and pop = 1(6)
  show ?case
  proof (cases op_node)
    case None
    show ?thesis
    proof (cases "queue s")
      case Nil
      with None 1(3,4) show ?thesis by (simp add: flush_loop.simps [of env None s])
    next
      case (Cons p q)
      from Cons None 1(3) have l: "flush_loop env (Some p) (s\<lparr>queue := q\<rparr>) = Some s'"
        by (simp add: flush_loop.simps [of env None s])
      from None 1(4) have "I None s" by simp
      then have i: "I (Some p) (s\<lparr>queue := q\<rparr>)" using Cons by (rule pop)
      show ?thesis by (rule 1(1) [OF None Cons l i visit pop])
    qed
  next
    case (Some p)
    with 1(3) obtain r s1 where v: "flush_visit env p s = Some (r, s1)"
      and l: "flush_loop env r s1 = Some s'"
      by (auto simp: flush_loop.simps [of env "Some p" s] split: option.splits)
    from Some 1(4) have "I (Some p) s" by simp
    then have i: "I r s1" using v by (rule visit)
    show ?thesis by (rule 1(2) [OF Some v refl l i visit pop])
  qed
qed

lemma flush_loop_returns:
  assumes "I a s"
    and "\<And>p s. I (Some p) s \<Longrightarrow> \<exists>r s1. flush_visit env p s = Some (r, s1) \<and> I r s1"
    and "\<And>p q s. I None s \<Longrightarrow> queue s = p # q \<Longrightarrow> I (Some p) (s\<lparr>queue := q\<rparr>)"
  shows "\<exists>s'. flush_loop env a s = Some s'"
  using assms
proof (induction env a s rule: flush_loop.induct)
  case (1 env op_node s)
  note visit = 1(4) and pop = 1(5)
  show ?case
  proof (cases op_node)
    case None
    show ?thesis
    proof (cases "queue s")
      case Nil
      with None show ?thesis by (simp add: flush_loop.simps [of env None s])
    next
      case (Cons p q)
      from None 1(3) have "I None s" by simp
      then have "I (Some p) (s\<lparr>queue := q\<rparr>)" using Cons by (rule pop)
      from 1(1) [OF None Cons this visit pop] obtain s' where
        "flush_loop env (Some p) (s\<lparr>queue := q\<rparr>) = Some s'" ..
      with None Cons show ?thesis
        by (simp add: flush_loop.simps [of env None s])
    qed
  next
    case (Some p)
    from Some 1(3) have "I (Some p) s" by simp
    from visit [OF this] obtain r s1 where v: "flush_visit env p s = Some (r, s1)" and i: "I r s1"
      by auto
    from 1(2) [OF Some v refl i visit pop] obtain s' where "flush_loop env r s1 = Some s'" ..
    with Some v show ?thesis
      by (simp add: flush_loop.simps [of env "Some p" s])
  qed
qed


section \<open>On a well-formed graph no pointer is dangling\<close>

definition queue_ok :: "flush_state \<Rightarrow> bool" where
  "queue_ok s \<longleftrightarrow> (\<forall>p \<in> set (queue s). valid_op (graph s) p)"

definition flush_ok :: "flush_env \<Rightarrow> nat option \<Rightarrow> flush_state \<Rightarrow> bool" where
  "flush_ok env op_node s \<longleftrightarrow>
     wf_struct env (graph s) \<and> queue_ok s
   \<and> (case op_node of None \<Rightarrow> True | Some p \<Rightarrow> valid_op (graph s) p)"

lemma flush_handle_id_node_returns:
  assumes "valid_id (graph s) i"
  shows "\<exists>s'. flush_handle_id_node env i s = Some s'"
  using assms by (simp add: flush_handle_id_node_def Let_def)

lemma tag_component_operations_returns:
  "\<forall>p \<in> set ps. valid_op g p \<Longrightarrow> \<exists>g'. tag_component_operations env ps g = Some g'"
  by (induction env ps g rule: tag_component_operations.induct) simp_all

lemma flush_handle_cow_returns:
  assumes "wf_struct env g" "valid_comp g c" "i = comp_owner (comp_nodes g ! c)"
  shows "\<exists>g'. flush_handle_cow env i c g = Some g'"
proof (cases "use_copy_on_write env \<and> depends_on_cow (comp_nodes g ! c)")
  case True
  from wf_struct_compD(1) [OF assms(1,2)] assms(3) have vi: "valid_id g i" by simp
  from wf_struct_compD(4) [OF assms(1,2)] True assms(3) obtain cow where
    f: "find_component (id_nodes g ! i) DEG_NODE_TYPE_COPY_ON_WRITE = Some cow" by auto
  from wf_struct_idD(1) [OF assms(1) vi f] have "valid_comp g cow" .
  with True vi f show ?thesis by (simp add: flush_handle_cow_def tag_update_def)
next
  case False
  then show ?thesis by (auto simp: flush_handle_cow_def)
qed

lemma flush_handle_bone_returns:
  assumes "wf_struct env (graph s)" "valid_comp (graph s) c"
    and "i = comp_owner (comp_nodes (graph s) ! c)"
    and "comp_type (comp_nodes (graph s) ! c) = DEG_NODE_TYPE_BONE"
    and "queue_ok s"
  shows "\<exists>s'. flush_handle_bone i s = Some s' \<and> queue_ok s'"
proof -
  from wf_struct_compD(1) [OF assms(1,2)] assms(3) have vi: "valid_id (graph s) i" by simp
  from wf_struct_compD(3) [OF assms(1,2,4)] assms(3) obtain pc where
    f: "find_component (id_nodes (graph s) ! i) DEG_NODE_TYPE_EVAL_POSE = Some pc" by auto
  from wf_struct_idD(1) [OF assms(1) vi f] have vc: "valid_comp (graph s) pc" .
  from wf_struct_idD(3) [OF assms(1) vi f] have ve: "valid_op (graph s) (entry_operation (comp_nodes (graph s) ! pc))" .
  from vi f vc ve assms(5) show ?thesis
    by (auto simp: flush_handle_bone_def queue_ok_def)
qed

lemma queue_ok_shape:
  "shape (graph s') = shape (graph s) \<Longrightarrow> queue s' = queue s \<Longrightarrow> queue_ok s' = queue_ok s"
  using shape_valid(1) [of "graph s'" "graph s"] by (simp add: queue_ok_def)

lemma flush_handle_component_node_returns:
  assumes "wf_struct env (graph s)" "valid_comp (graph s) c"
    and "i = comp_owner (comp_nodes (graph s) ! c)" "queue_ok s"
  shows "\<exists>s'. flush_handle_component_node env i c s = Some s' \<and> queue_ok s'"
proof (cases "comp_done (comp_nodes (graph s) ! c) = COMPONENT_STATE_DONE")
  case True
  with assms show ?thesis by (simp add: flush_handle_component_node_def)
next
  case False
  define g1 where "g1 = comp_update c (\<lambda>n. n\<lparr>comp_done := COMPONENT_STATE_DONE\<rparr>) (graph s)"
  have sh1: "shape g1 = shape (graph s)" by (simp add: g1_def)
  have wf1: "wf_struct env g1" using assms(1) wf_struct_shape [OF sh1] by simp
  note f1 = shape_fields [OF sh1] and v1 = shape_valid [OF sh1]
  have vc1: "valid_comp g1 c" using assms(2) v1 by simp
  have i1: "i = comp_owner (comp_nodes g1 ! c)" using assms(2,3) f1(6) by simp
  from flush_handle_cow_returns [OF wf1 vc1 i1] obtain g2 where
    g2: "flush_handle_cow env i c g1 = Some g2" ..
  note sh2 = flush_handle_cow_shape [OF g2]
  have wf2: "wf_struct env g2" using wf1 wf_struct_shape [OF sh2] by simp
  note f2 = shape_fields [OF sh2] and v2 = shape_valid [OF sh2]
  have vc2: "valid_comp g2 c" using vc1 v2 by simp
  have "\<forall>p \<in> set (comp_operations (comp_nodes g2 ! c)). valid_op g2 p"
    using wf_struct_compD(2) [OF wf2 vc2] by blast
  from tag_component_operations_returns [OF this] obtain g3 where
    g3: "tag_component_operations env (comp_operations (comp_nodes g2 ! c)) g2 = Some g3" ..
  note sh3 = tag_component_operations_shape [OF g3]
  have wf3: "wf_struct env g3" using wf2 wf_struct_shape [OF sh3] by simp
  note f3 = shape_fields [OF sh3] and v3 = shape_valid [OF sh3]
  have vc3: "valid_comp g3 c" using vc2 v3 by simp
  have i3: "i = comp_owner (comp_nodes g3 ! c)" using i1 vc1 vc2 f2(6) f3(6) by simp
  have q3: "queue_ok (s\<lparr>graph := g3\<rparr>)"
    using assms(4) by (simp add: queue_ok_def v1 v2 v3)
  show ?thesis
  proof (cases "comp_type (comp_nodes g3 ! c) = DEG_NODE_TYPE_BONE")
    case True
    from flush_handle_bone_returns [of env "s\<lparr>graph := g3\<rparr>" c i] wf3 vc3 i3 True q3
    obtain s' where "flush_handle_bone i (s\<lparr>graph := g3\<rparr>) = Some s'" "queue_ok s'" by auto
    with False assms(2) g2 g3 True show ?thesis
      by (simp add: flush_handle_component_node_def g1_def)
  next
    case F: False
    with False assms(2) g2 g3 q3 show ?thesis
      by (simp add: flush_handle_component_node_def g1_def)
  qed
qed

lemma flush_schedule_children_loop_returns:
  assumes "\<forall>t \<in> set rels. valid_op (graph s) t" "queue_ok s"
    and "case r of None \<Rightarrow> True | Some p \<Rightarrow> valid_op (graph s) p"
  shows "\<exists>r' s'. flush_schedule_children_loop rels r s = Some (r', s') \<and> queue_ok s'
           \<and> (case r' of None \<Rightarrow> True | Some p \<Rightarrow> valid_op (graph s') p)"
  using assms
proof (induction rels r s rule: flush_schedule_children_loop.induct)
  case (1 result s)
  then show ?case by simp
next
  case (2 to_node rels result s)
  then show ?case
    by (cases result) (auto simp: queue_ok_def)
qed

lemma flush_visit_returns:
  assumes "flush_ok env (Some p) s"
  shows "\<exists>r s'. flush_visit env p s = Some (r, s') \<and> flush_ok env r s'"
proof -
  from assms have wf: "wf_struct env (graph s)" and q: "queue_ok s" and vp: "valid_op (graph s) p"
    by (simp_all add: flush_ok_def)
  define s1 where "s1 = s\<lparr>graph := op_update p (\<lambda>n. n\<lparr>flag := flag n OR DEPSOP_FLAG_NEEDS_UPDATE env\<rparr>) (graph s),
                 trace := trace s @ [Visit p]\<rparr>"
  define c where "c = op_owner (operations (graph s1) ! p)"
  define i where "i = comp_owner (comp_nodes (graph s1) ! c)"
  have sh1: "shape (graph s1) = shape (graph s)" by (simp add: s1_def)
  have wf1: "wf_struct env (graph s1)" using wf wf_struct_shape [OF sh1] by simp
  have vp1: "valid_op (graph s1) p" using vp by (simp add: shape_valid [OF sh1])
  have q1: "queue_ok s1" using q by (simp add: queue_ok_def s1_def)
  have vc1: "valid_comp (graph s1) c" unfolding c_def by (rule wf_struct_opD(1) [OF wf1 vp1])
  have vi1: "valid_id (graph s1) i" unfolding i_def by (rule wf_struct_compD(1) [OF wf1 vc1])
  from flush_handle_id_node_returns [OF vi1] obtain s2 where
    s2: "flush_handle_id_node env i s1 = Some s2" ..
  note sh2 = flush_handle_id_node_shape [OF s2]
  have wf2: "wf_struct env (graph s2)" using wf1 wf_struct_shape [OF sh2] by simp
  have q2: "queue_ok s2"
    using q1 flush_handle_id_node_frame(4) [OF s2] by (simp add: queue_ok_shape [OF sh2])
  have vc2: "valid_comp (graph s2) c" using vc1 by (simp add: shape_valid [OF sh2])
  have i2: "i = comp_owner (comp_nodes (graph s2) ! c)"
    using vc1 shape_fields(6) [OF sh2] by (simp add: i_def)
  from flush_handle_component_node_returns [OF wf2 vc2 i2 q2] obtain s3 where
    s3: "flush_handle_component_node env i c s2 = Some s3" and q3: "queue_ok s3" by blast
  note sh3 = flush_handle_component_node_shape [OF s3]
  have wf3: "wf_struct env (graph s3)" using wf2 wf_struct_shape [OF sh3] by simp
  have vp3: "valid_op (graph s3) p" using vp1 by (simp add: shape_valid [OF sh3] shape_valid [OF sh2])
  have "\<forall>t \<in> set (outlinks (operations (graph s3) ! p)). valid_op (graph s3) t"
    using wf_struct_opD(2) [OF wf3 vp3] by blast
  from flush_schedule_children_loop_returns [OF this q3, of None] obtain r s' where
    ch: "flush_schedule_children_loop (outlinks (operations (graph s3) ! p)) None s3 = Some (r, s')"
    and q': "queue_ok s'" and r: "case r of None \<Rightarrow> True | Some p \<Rightarrow> valid_op (graph s') p"
    by auto
  note sh' = flush_schedule_children_loop_shape [OF ch]
  have wf': "wf_struct env (graph s')" using wf3 wf_struct_shape [OF sh'] by simp
  have "flush_visit env p s = Some (r, s')"
    using vp vc1 s2 s3 ch vp3
    by (simp add: flush_visit_def flush_schedule_children_def s1_def [symmetric] c_def [symmetric]
        i_def [symmetric])
  with wf' q' r show ?thesis by (auto simp: flush_ok_def)
qed

lemma flush_loop_returns_ok:
  assumes "flush_ok env a s"
  shows "\<exists>s'. flush_loop env a s = Some s'"
  using assms
proof (rule flush_loop_returns [where I = "flush_ok env"])
  show "\<And>p s. flush_ok env (Some p) s \<Longrightarrow> \<exists>r s1. flush_visit env p s = Some (r, s1) \<and> flush_ok env r s1"
    by (rule flush_visit_returns)
  show "\<And>p q s. flush_ok env None s \<Longrightarrow> queue s = p # q \<Longrightarrow> flush_ok env (Some p) (s\<lparr>queue := q\<rparr>)"
    by (auto simp: flush_ok_def queue_ok_def)
qed


section \<open>What the reset and the entry scheduler do\<close>

lemma BLI_task_parallel_range_returns:
  assumes "P g"
    and "\<And>g i. P g \<Longrightarrow> i \<in> set is \<Longrightarrow> \<exists>g'. func g i = Some g' \<and> P g'"
  shows "\<exists>g'. BLI_task_parallel_range is func g = Some g' \<and> P g'"
  using assms
proof (induction "is" arbitrary: g)
  case Nil
  then show ?case by simp
next
  case (Cons i "is")
  from Cons.prems(2) [OF Cons.prems(1), of i] obtain g1 where g1: "func g i = Some g1" "P g1"
    by auto
  have "\<exists>g'. BLI_task_parallel_range is func g1 = Some g' \<and> P g'"
    by (rule Cons.IH [OF g1(2)]) (use Cons.prems(2) in auto)
  with g1 show ?case by simp
qed

lemma BLI_task_parallel_range_induct:
  assumes "BLI_task_parallel_range is func g = Some g'"
    and "Q pre g"
    and "\<And>g i g1 pre. Q pre g \<Longrightarrow> func g i = Some g1 \<Longrightarrow> Q (pre @ [i]) g1"
  shows "Q (pre @ is) g'"
  using assms(1,2)
proof (induction "is" arbitrary: g pre)
  case Nil
  then show ?case by simp
next
  case (Cons i "is")
  from Cons.prems(1) obtain g1 where g1: "func g i = Some g1"
    and r: "BLI_task_parallel_range is func g1 = Some g'"
    by (auto split: option.splits)
  have "Q (pre @ [i]) g1" using Cons.prems(2) g1 by (rule assms(3))
  from Cons.IH [OF r this] show ?case by simp
qed

lemma reset_components_frame:
  assumes "reset_components cs g = Some g'"
  shows "operations g' = operations g" and "id_nodes g' = id_nodes g" and "entry_tags g' = entry_tags g"
  using assms
  by (induction cs g rule: reset_components.induct; simp split: if_splits)+

lemma reset_components_returns:
  "\<forall>c \<in> set cs. valid_comp g c \<Longrightarrow> \<exists>g'. reset_components cs g = Some g'"
  by (induction cs g rule: reset_components.induct) simp_all

lemma flush_prepare_effect:
  assumes "flush_prepare g = Some g'"
  shows "entry_tags g' = entry_tags g"
    and "length (operations g') = length (operations g)"
    and "p < length (operations g) \<Longrightarrow> operations g' ! p = (operations g ! p)\<lparr>scheduled := False\<rparr>"
    and "i < length (id_nodes g') \<Longrightarrow> \<not> id_done (id_nodes g' ! i)"
proof -
  from assms obtain g1 where
    1: "BLI_task_parallel_range [0 ..< length (operations g)] flush_init_operation_node_func g = Some g1"
    and 2: "BLI_task_parallel_range [0 ..< length (id_nodes g1)] flush_init_id_node_func g1 = Some g'"
    by (auto simp: flush_prepare_def split: option.splits)
  define Q1 where "Q1 = (\<lambda>(pre :: nat list) (g1 :: Depsgraph). entry_tags g1 = entry_tags g \<and> id_nodes g1 = id_nodes g
      \<and> length (operations g1) = length (operations g)
      \<and> (\<forall>p < length (operations g). operations g1 ! p =
            (if p \<in> set pre then (operations g ! p)\<lparr>scheduled := False\<rparr> else operations g ! p)))"
  have "Q1 ([] @ [0 ..< length (operations g)]) g1"
    using 1
  proof (rule BLI_task_parallel_range_induct)
    show "Q1 [] g" by (simp add: Q1_def)
  next
    fix ga i gb pre
    assume "Q1 pre ga" "flush_init_operation_node_func ga i = Some gb"
    then show "Q1 (pre @ [i]) gb"
      by (auto simp: Q1_def flush_init_operation_node_func_def op_update_nth split: if_splits)
  qed
  then have q1: "entry_tags g1 = entry_tags g" "length (operations g1) = length (operations g)"
    "\<And>p. p < length (operations g) \<Longrightarrow> operations g1 ! p = (operations g ! p)\<lparr>scheduled := False\<rparr>"
    by (simp_all add: Q1_def)
  define Q2 where "Q2 = (\<lambda>(pre :: nat list) (g2 :: Depsgraph). entry_tags g2 = entry_tags g1 \<and> operations g2 = operations g1
      \<and> length (id_nodes g2) = length (id_nodes g1)
      \<and> (\<forall>i \<in> set pre. i < length (id_nodes g1) \<longrightarrow> \<not> id_done (id_nodes g2 ! i)))"
  have "Q2 ([] @ [0 ..< length (id_nodes g1)]) g'"
    using 2
  proof (rule BLI_task_parallel_range_induct)
    show "Q2 [] g1" by (simp add: Q2_def)
  next
    fix ga i gb pre
    assume a: "Q2 pre ga" "flush_init_id_node_func ga i = Some gb"
    from a(2) obtain r: "reset_components (map snd (components (id_nodes ga ! i)))
             (id_update i (\<lambda>n. n\<lparr>id_done := False\<rparr>) ga) = Some gb" and v: "valid_id ga i"
      by (auto simp: flush_init_id_node_func_def split: if_splits)
    note fr = reset_components_frame [OF r]
    from a(1) v show "Q2 (pre @ [i]) gb"
      by (auto simp: Q2_def fr id_update_nth valid_id_def)
  qed
  then have q2: "entry_tags g' = entry_tags g1" "operations g' = operations g1"
    "length (id_nodes g') = length (id_nodes g1)"
    "\<And>i. i < length (id_nodes g1) \<Longrightarrow> \<not> id_done (id_nodes g' ! i)"
    by (simp_all add: Q2_def)
  show "entry_tags g' = entry_tags g" using q1 q2 by simp
  show "length (operations g') = length (operations g)" using q1 q2 by simp
  show "p < length (operations g) \<Longrightarrow> operations g' ! p = (operations g ! p)\<lparr>scheduled := False\<rparr>"
    using q1 q2 by simp
  show "i < length (id_nodes g') \<Longrightarrow> \<not> id_done (id_nodes g' ! i)"
    using q2 by simp
qed

lemma flush_prepare_returns:
  assumes "wf_struct env g"
  shows "\<exists>g'. flush_prepare g = Some g'"
proof -
  define P where "P = (\<lambda>g1 :: Depsgraph. shape g1 = shape g)"
  have "\<exists>g1. BLI_task_parallel_range [0 ..< length (operations g)] flush_init_operation_node_func g = Some g1
          \<and> P g1"
  proof (rule BLI_task_parallel_range_returns)
    show "P g" by (simp add: P_def)
  next
    fix ga i
    assume "P ga" "i \<in> set [0 ..< length (operations g)]"
    then show "\<exists>g'. flush_init_operation_node_func ga i = Some g' \<and> P g'"
      using shape_eqD(1) [of ga g]
      by (simp add: P_def flush_init_operation_node_func_def valid_op_def)
  qed
  then obtain g1 where 1:
    "BLI_task_parallel_range [0 ..< length (operations g)] flush_init_operation_node_func g = Some g1"
    and p1: "P g1" by blast
  have "\<exists>g2. BLI_task_parallel_range [0 ..< length (id_nodes g1)] flush_init_id_node_func g1 = Some g2
          \<and> P g2"
  proof (rule BLI_task_parallel_range_returns)
    show "P g1" by (rule p1)
  next
    fix ga i
    assume a: "P ga" "i \<in> set [0 ..< length (id_nodes g1)]"
    from a(1) have sh: "shape ga = shape g" by (simp add: P_def)
    from p1 have sh1: "shape g1 = shape g" by (simp add: P_def)
    have wfa: "wf_struct env ga" using assms wf_struct_shape [OF sh] by simp
    have vi: "valid_id ga i" using a(2) shape_eqD(3) [OF sh] shape_eqD(3) [OF sh1]
      by (simp add: valid_id_def)
    define gb where "gb = id_update i (\<lambda>n. n\<lparr>id_done := False\<rparr>) ga"
    have shb: "shape gb = shape ga" by (simp add: gb_def)
    have "\<forall>c \<in> set (map snd (components (id_nodes ga ! i))). valid_comp gb c"
      using wf_struct_idD(2) [OF wfa vi] shape_valid(2) [OF shb] by blast
    then have "\<exists>g'. reset_components (map snd (components (id_nodes ga ! i))) gb = Some g'
        \<and> shape g' = shape gb"
      using reset_components_returns reset_components_shape by blast
    then show "\<exists>g'. flush_init_id_node_func ga i = Some g' \<and> P g'"
      using vi sh shb by (auto simp: flush_init_id_node_func_def P_def gb_def)
  qed
  with 1 show ?thesis by (auto simp: flush_prepare_def)
qed


lemma flush_schedule_entrypoints_loop_effect:
  assumes "flush_schedule_entrypoints_loop ps s = Some s'"
  shows "queue s' = queue s @ ps"
    and "trace s' = trace s @ map Push_Back_Entry ps"
    and "comp_nodes (graph s') = comp_nodes (graph s)"
    and "id_nodes (graph s') = id_nodes (graph s)"
    and "entry_tags (graph s') = entry_tags (graph s)"
    and "length (operations (graph s')) = length (operations (graph s))"
    and "operations (graph s') ! q =
           (if q \<in> set ps then (operations (graph s) ! q)\<lparr>scheduled := True\<rparr>
            else operations (graph s) ! q)"
  using assms
  by (induction ps s rule: flush_schedule_entrypoints_loop.induct;
      simp add: op_update_nth valid_op_def split: if_splits; fastforce?)+

lemma flush_schedule_entrypoints_loop_returns:
  "\<forall>p \<in> set ps. valid_op (graph s) p \<Longrightarrow> \<exists>s'. flush_schedule_entrypoints_loop ps s = Some s'"
  by (induction ps s rule: flush_schedule_entrypoints_loop.induct) simp_all

lemma flush_schedule_entrypoints_effect:
  assumes "flush_schedule_entrypoints \<lparr>graph = g, queue = [], trace = []\<rparr> = Some s'"
  shows "queue s' = entry_tags g"
    and "trace s' = map Push_Back_Entry (entry_tags g)"
    and "comp_nodes (graph s') = comp_nodes g"
    and "id_nodes (graph s') = id_nodes g"
    and "entry_tags (graph s') = entry_tags g"
    and "length (operations (graph s')) = length (operations g)"
    and "operations (graph s') ! q =
           (if q \<in> set (entry_tags g) then (operations g ! q)\<lparr>scheduled := True\<rparr>
            else operations g ! q)"
  using flush_schedule_entrypoints_loop_effect [of "entry_tags g" "\<lparr>graph = g, queue = [], trace = []\<rparr>" s']
    assms
  by (simp_all add: flush_schedule_entrypoints_def)

text \<open>The three stages of a flush that is not the early return.\<close>

lemma deg_graph_flush_updates_stages:
  assumes "deg_graph_flush_updates env g = Some s" "entry_tags g \<noteq> []"
  obtains g1 s1 where "flush_prepare g = Some g1"
    and "flush_schedule_entrypoints \<lparr>graph = g1, queue = [], trace = []\<rparr> = Some s1"
    and "flush_loop env None s1 = Some s"
  using assms by (auto simp: deg_graph_flush_updates_def split: Option.bind_splits)

lemma deg_graph_flush_updates_returns:
  assumes "wf_graph env g"
  shows "\<exists>s. deg_graph_flush_updates env g = Some s"
proof (cases "entry_tags g = []")
  case True
  then show ?thesis by (simp add: deg_graph_flush_updates_def)
next
  case False
  from assms have wf: "wf_struct env g" and ve: "\<forall>p \<in> set (entry_tags g). valid_op g p"
    by (simp_all add: wf_graph_def)
  from flush_prepare_returns [OF wf] obtain g1 where g1: "flush_prepare g = Some g1" ..
  note sh1 = flush_prepare_shape [OF g1]
  have wf1: "wf_struct env g1" using wf wf_struct_shape [OF sh1] by simp
  have e1: "entry_tags g1 = entry_tags g" by (rule flush_prepare_effect(1) [OF g1])
  have "\<forall>p \<in> set (entry_tags g1). valid_op (graph \<lparr>graph = g1, queue = [], trace = []\<rparr>) p"
    using ve e1 shape_valid(1) [OF sh1] by simp
  from flush_schedule_entrypoints_loop_returns [OF this] obtain s1 where
    s1: "flush_schedule_entrypoints \<lparr>graph = g1, queue = [], trace = []\<rparr> = Some s1"
    by (auto simp: flush_schedule_entrypoints_def)
  have sh2: "shape (graph s1) = shape g1"
    using flush_schedule_entrypoints_loop_shape [of "entry_tags g1" "\<lparr>graph = g1, queue = [], trace = []\<rparr>" s1] s1
    by (simp add: flush_schedule_entrypoints_def)
  have wf2: "wf_struct env (graph s1)" using wf1 wf_struct_shape [OF sh2] by simp
  have "queue_ok s1"
    using ve flush_schedule_entrypoints_effect(1) [OF s1] e1 shape_valid(1) [OF sh1] shape_valid(1) [OF sh2]
    by (simp add: queue_ok_def)
  with wf2 have "flush_ok env None s1" by (simp add: flush_ok_def)
  from flush_loop_returns_ok [OF this] obtain s where "flush_loop env None s1 = Some s" ..
  with False g1 s1 show ?thesis by (simp add: deg_graph_flush_updates_def)
qed


section \<open>What the tag clear does\<close>

definition cleared :: "flush_env \<Rightarrow> OperationDepsNode \<Rightarrow> OperationDepsNode" where
  "cleared env n =
     n\<lparr>flag := flag n AND NOT (DEPSOP_FLAG_DIRECTLY_MODIFIED env OR DEPSOP_FLAG_NEEDS_UPDATE env)\<rparr>"

lemma deg_graph_clear_tags_eq:
  "deg_graph_clear_tags env g =
     Some (g\<lparr>operations := map (cleared env) (operations g), entry_tags := []\<rparr>)"
proof -
  define P where "P = (\<lambda>g1 :: Depsgraph. length (operations g1) = length (operations g))"
  have "\<exists>g1. BLI_task_parallel_range [0 ..< length (operations g)] (graph_clear_func env) g = Some g1
          \<and> P g1"
  proof (rule BLI_task_parallel_range_returns)
    show "P g" by (simp add: P_def)
  next
    fix ga i
    assume "P ga" "i \<in> set [0 ..< length (operations g)]"
    then show "\<exists>g'. graph_clear_func env ga i = Some g' \<and> P g'"
      by (simp add: P_def graph_clear_func_def valid_op_def)
  qed
  then obtain g1 where 1:
    "BLI_task_parallel_range [0 ..< length (operations g)] (graph_clear_func env) g = Some g1"
    by blast
  define Q where "Q = (\<lambda>(pre :: nat list) (g1 :: Depsgraph).
      comp_nodes g1 = comp_nodes g \<and> id_nodes g1 = id_nodes g
      \<and> length (operations g1) = length (operations g)
      \<and> (\<forall>p < length (operations g). operations g1 ! p =
            (if p \<in> set pre then cleared env (operations g ! p) else operations g ! p)))"
  have "Q ([] @ [0 ..< length (operations g)]) g1"
    using 1
  proof (rule BLI_task_parallel_range_induct)
    show "Q [] g" by (simp add: Q_def)
  next
    fix ga i gb pre
    assume "Q pre ga" "graph_clear_func env ga i = Some gb"
    then show "Q (pre @ [i]) gb"
      by (auto simp: Q_def graph_clear_func_def op_update_nth cleared_def word_bw_assocs
          split: if_splits)
  qed
  then have q: "comp_nodes g1 = comp_nodes g" "id_nodes g1 = id_nodes g"
    "length (operations g1) = length (operations g)"
    "\<And>p. p < length (operations g) \<Longrightarrow> operations g1 ! p = cleared env (operations g ! p)"
    by (simp_all add: Q_def)
  have "operations g1 = map (cleared env) (operations g)"
    by (rule nth_equalityI) (simp_all add: q)
  with q(1,2) have "g1\<lparr>entry_tags := []\<rparr>
      = g\<lparr>operations := map (cleared env) (operations g), entry_tags := []\<rparr>"
    by (cases g1, cases g) simp
  with 1 show ?thesis by (simp add: deg_graph_clear_tags_def)
qed

lemma cleared_idem: "cleared env (cleared env n) = cleared env n"
  by (simp add: cleared_def word_bw_assocs)

lemma cleared_flag:
  "flag (cleared env n) AND DEPSOP_FLAG_DIRECTLY_MODIFIED env = 0"
  "flag (cleared env n) AND DEPSOP_FLAG_NEEDS_UPDATE env = 0"
  by (auto simp: cleared_def bit_eq_iff bit_simps)


section \<open>The blanket re-tag of the component handler\<close>

lemma tag_component_operations_effect:
  assumes "tag_component_operations env ps g = Some g'"
  shows "operations g' ! q =
           (if q \<in> set ps \<and> opcode (operations g ! q) \<noteq> DEG_OPCODE_PARTICLE_SETTINGS_EVAL
            then (operations g ! q)\<lparr>flag := flag (operations g ! q) OR DEPSOP_FLAG_NEEDS_UPDATE env\<rparr>
            else operations g ! q)"
  using assms
proof (induction env ps g rule: tag_component_operations.induct)
  case (1 env g)
  then show ?case by simp
next
  case (2 env p ps g)
  from 2(3) have v: "valid_op g p" by (simp split: if_splits)
  show ?case
  proof (cases "opcode (operations g ! p) = DEG_OPCODE_PARTICLE_SETTINGS_EVAL")
    case True
    with 2(1,3) v show ?thesis by auto
  next
    case False
    with 2(2,3) v show ?thesis
      by (auto simp: op_update_nth valid_op_def word_bw_assocs)
  qed
qed


lemma flush_handle_bone_operations:
  "flush_handle_bone i s = Some s' \<Longrightarrow> operations (graph s') = operations (graph s)"
  by (rule flush_handle_bone_measure(1))

lemma flush_handle_component_node_operations:
  assumes "flush_handle_component_node env i c s = Some s'"
  shows "operations (graph s') ! q =
     (if comp_done (comp_nodes (graph s) ! c) \<noteq> COMPONENT_STATE_DONE
         \<and> q \<in> set (comp_operations (comp_nodes (graph s) ! c))
         \<and> opcode (operations (graph s) ! q) \<noteq> DEG_OPCODE_PARTICLE_SETTINGS_EVAL
      then (operations (graph s) ! q)\<lparr>flag := flag (operations (graph s) ! q) OR DEPSOP_FLAG_NEEDS_UPDATE env\<rparr>
      else operations (graph s) ! q)"
proof (cases "comp_done (comp_nodes (graph s) ! c) = COMPONENT_STATE_DONE")
  case True
  with assms show ?thesis by (auto simp: flush_handle_component_node_def split: if_splits)
next
  case False
  define g1 where "g1 = comp_update c (\<lambda>n. n\<lparr>comp_done := COMPONENT_STATE_DONE\<rparr>) (graph s)"
  from assms False obtain g2 g3 where vc: "valid_comp (graph s) c"
    and g2: "flush_handle_cow env i c g1 = Some g2"
    and g3: "tag_component_operations env (comp_operations (comp_nodes g2 ! c)) g2 = Some g3"
    and s': "(if comp_type (comp_nodes g3 ! c) = DEG_NODE_TYPE_BONE
        then flush_handle_bone i (s\<lparr>graph := g3\<rparr>)
        else Some (s\<lparr>graph := g3\<rparr>)) = Some s'"
    by (auto simp: flush_handle_component_node_def g1_def split: if_splits Option.bind_splits)
  have o3: "operations (graph s') = operations g3"
    using s' flush_handle_bone_operations [of i "s\<lparr>graph := g3\<rparr>" s'] by (auto split: if_splits)
  have o2: "operations g2 = operations (graph s)" "comp_nodes g2 = comp_nodes g1"
    using flush_handle_cow_frame [OF g2] by (simp_all add: g1_def)
  have c2: "comp_operations (comp_nodes g1 ! c) = comp_operations (comp_nodes (graph s) ! c)"
    using vc by (simp add: g1_def comp_update_nth valid_comp_def)
  show ?thesis
    using tag_component_operations_effect [OF g3, of q] False by (simp add: o3 o2 c2)
qed

section \<open>Example graphs\<close>

text \<open>
  The flag values of the examples: \<open>NEEDS_UPDATE\<close> is bit 0 and \<open>DIRECTLY_MODIFIED\<close> is bit 1.
\<close>

definition example_env :: "bool \<Rightarrow> flush_env" where
  "example_env cow =
     \<lparr>DEPSOP_FLAG_NEEDS_UPDATE = 1, DEPSOP_FLAG_DIRECTLY_MODIFIED = 2,
      LIB_TAG_ID_RECALC_ALL = 12, use_copy_on_write = cow\<rparr>"

definition mk_op :: "eDepsOperation_Code \<Rightarrow> nat list \<Rightarrow> nat \<Rightarrow> OperationDepsNode" where
  "mk_op code links c = \<lparr>scheduled = False, flag = 0, opcode = code, outlinks = links, op_owner = c\<rparr>"

definition mk_comp :: "eDepsNode_Type \<Rightarrow> nat list \<Rightarrow> nat \<Rightarrow> nat \<Rightarrow> bool \<Rightarrow> ComponentDepsNode" where
  "mk_comp t ps i e cow =
     \<lparr>comp_done = COMPONENT_STATE_NONE, comp_type = t, comp_operations = ps,
      comp_owner = i, entry_operation = e, depends_on_cow = cow\<rparr>"

definition mk_id :: "(eDepsNode_Type \<times> nat) list \<Rightarrow> bool \<Rightarrow> IDDepsNode" where
  "mk_id cs expanded =
     \<lparr>id_done = False, components = cs, id_orig_tag = 4, id_cow_tag = 0,
      id_cow_expanded = expanded\<rparr>"

text \<open>
  The chain of the spec's example: three operations in three components of one entity,
  \<open>0 \<rightarrow> 1 \<rightarrow> 2\<close>, with operation 0 tagged.
\<close>

definition g_chain :: Depsgraph where
  "g_chain =
     \<lparr>operations = [mk_op (DEG_OPCODE_OTHER 0) [1] 0, mk_op (DEG_OPCODE_OTHER 1) [2] 1,
                    mk_op (DEG_OPCODE_OTHER 2) [] 2],
      comp_nodes = [mk_comp (DEG_NODE_TYPE_OTHER 0) [0] 0 0 False,
                    mk_comp (DEG_NODE_TYPE_OTHER 1) [1] 0 1 False,
                    mk_comp (DEG_NODE_TYPE_OTHER 2) [2] 0 2 False],
      id_nodes = [mk_id [(DEG_NODE_TYPE_OTHER 0, 0), (DEG_NODE_TYPE_OTHER 1, 1),
                         (DEG_NODE_TYPE_OTHER 2, 2)] True],
      entry_tags = [0]\<rparr>"

text \<open>
  An armature: operation 0 drives the bone operation 1 and the pose entry operation 2, in
  this order; the entity's evaluated copy is not expanded.
\<close>

definition g_pose :: Depsgraph where
  "g_pose =
     \<lparr>operations = [mk_op (DEG_OPCODE_OTHER 0) [1, 2] 0, mk_op (DEG_OPCODE_OTHER 1) [] 1,
                    mk_op (DEG_OPCODE_OTHER 2) [] 2],
      comp_nodes = [mk_comp (DEG_NODE_TYPE_OTHER 0) [0] 0 0 False,
                    mk_comp DEG_NODE_TYPE_BONE [1] 0 1 False,
                    mk_comp DEG_NODE_TYPE_EVAL_POSE [2] 0 2 False],
      id_nodes = [mk_id [(DEG_NODE_TYPE_OTHER 0, 0), (DEG_NODE_TYPE_BONE, 1),
                         (DEG_NODE_TYPE_EVAL_POSE, 2)] False],
      entry_tags = [0]\<rparr>"

text \<open>
  A particle system: component 0 owns the tagged operation 0, its sibling 1 and the
  particle settings operation 2, none linked to another; component 1 depends on
  copy-on-write and was handled by an earlier flush; component 2 is the copy-on-write
  component with operation 3.
\<close>

definition g_particles :: Depsgraph where
  "g_particles =
     \<lparr>operations = [mk_op (DEG_OPCODE_OTHER 0) [] 0, mk_op (DEG_OPCODE_OTHER 1) [] 0,
                    mk_op DEG_OPCODE_PARTICLE_SETTINGS_EVAL [] 0, mk_op (DEG_OPCODE_OTHER 3) [] 2],
      comp_nodes = [mk_comp (DEG_NODE_TYPE_OTHER 0) [0, 1, 2] 0 0 True,
                    (mk_comp (DEG_NODE_TYPE_OTHER 1) [] 0 0 True)\<lparr>comp_done := COMPONENT_STATE_DONE\<rparr>,
                    mk_comp DEG_NODE_TYPE_COPY_ON_WRITE [3] 0 3 False],
      id_nodes = [mk_id [(DEG_NODE_TYPE_OTHER 0, 0), (DEG_NODE_TYPE_OTHER 1, 1),
                         (DEG_NODE_TYPE_COPY_ON_WRITE, 2)] True],
      entry_tags = [0]\<rparr>"

text \<open>The state a flush of the chain leaves behind, with the entry set already empty.\<close>

definition g_flushed :: Depsgraph where
  "g_flushed =
     g_chain\<lparr>operations := map (\<lambda>n. n\<lparr>scheduled := True, flag := 7\<rparr>) (operations g_chain),
             entry_tags := []\<rparr>"


section \<open>Reading the log\<close>

text \<open>
  Each function below picks one kind of event and returns the node the event is about:
  the operation whose \<open>scheduled\<close> flag an event sets, the operation an event inserts
  into the queue, the pose component whose entry operation the bone rule pushes, the
  operation of an iteration of the inner loop, and the entity of each external call.
\<close>

fun scheduled_op :: "flush_event \<Rightarrow> nat option" where
  "scheduled_op (Push_Back_Entry p) = Some p"
| "scheduled_op (Push_Front_Child p) = Some p"
| "scheduled_op (Bypass_Child p) = Some p"
| "scheduled_op _ = None"

fun inserted_op :: "flush_event \<Rightarrow> nat option" where
  "inserted_op (Push_Back_Entry p) = Some p"
| "inserted_op (Push_Front_Pose c p) = Some p"
| "inserted_op (Push_Front_Child p) = Some p"
| "inserted_op _ = None"

fun pose_component :: "flush_event \<Rightarrow> nat option" where
  "pose_component (Push_Front_Pose c p) = Some c"
| "pose_component _ = None"

fun visited_op :: "flush_event \<Rightarrow> nat option" where
  "visited_op (Visit p) = Some p"
| "visited_op _ = None"

fun notified_id :: "flush_event \<Rightarrow> nat option" where
  "notified_id (Editors_Id_Update i) = Some i"
| "notified_id _ = None"

fun recalc_tagged_id :: "flush_event \<Rightarrow> nat option" where
  "recalc_tagged_id (Lib_Id_Recalc_Tag i) = Some i"
| "recalc_tagged_id _ = None"

fun recalc_data_tagged_id :: "flush_event \<Rightarrow> nat option" where
  "recalc_data_tagged_id (Lib_Id_Recalc_Data_Tag i) = Some i"
| "recalc_data_tagged_id _ = None"

definition occurrences :: "(flush_event \<Rightarrow> nat option) \<Rightarrow> nat \<Rightarrow> flush_event list \<Rightarrow> nat" where
  "occurrences kind x tr = length (filter (\<lambda>e. kind e = Some x) tr)"

definition events_of :: "(flush_event \<Rightarrow> nat option) \<Rightarrow> flush_event list \<Rightarrow> nat" where
  "events_of kind tr = length (filter (\<lambda>e. kind e \<noteq> None) tr)"

lemma occurrences_simps [simp]:
  "occurrences kind x [] = 0"
  "occurrences kind x (e # tr) = (if kind e = Some x then 1 else 0) + occurrences kind x tr"
  "occurrences kind x (tr @ tr') = occurrences kind x tr + occurrences kind x tr'"
  by (simp_all add: occurrences_def)

lemma events_of_simps [simp]:
  "events_of kind [] = 0"
  "events_of kind (e # tr) = (if kind e \<noteq> None then 1 else 0) + events_of kind tr"
  "events_of kind (tr @ tr') = events_of kind tr + events_of kind tr'"
  by (simp_all add: events_of_def)

subsection \<open>Which events each routine logs\<close>

lemma flush_handle_id_node_trace:
  assumes "flush_handle_id_node env i s = Some s'"
  shows "trace s' = trace s @
           (if id_done (id_nodes (graph s) ! i) then []
            else (if id_cow_expanded (id_nodes (graph s) ! i) then [Editors_Id_Update i] else [])
                   @ [Lib_Id_Recalc_Tag i, Lib_Id_Recalc_Data_Tag i])"
  using assms by (auto simp: flush_handle_id_node_def Let_def split: if_splits)

lemma flush_handle_bone_trace:
  assumes "flush_handle_bone i s = Some s'"
  shows "\<exists>pc. find_component (id_nodes (graph s) ! i) DEG_NODE_TYPE_EVAL_POSE = Some pc
           \<and> valid_comp (graph s) pc
           \<and> (if comp_done (comp_nodes (graph s) ! pc) = COMPONENT_STATE_NONE
               then trace s' = trace s @ [Push_Front_Pose pc (entry_operation (comp_nodes (graph s) ! pc))]
                  \<and> queue s' = entry_operation (comp_nodes (graph s) ! pc) # queue s
                  \<and> graph s' = comp_update pc (\<lambda>n. n\<lparr>comp_done := COMPONENT_STATE_SCHEDULED\<rparr>) (graph s)
               else s' = s)"
  using assms by (auto simp: flush_handle_bone_def split: if_splits option.splits)

lemma flush_handle_component_node_id_nodes:
  assumes "flush_handle_component_node env i c s = Some s'"
  shows "id_nodes (graph s') = id_nodes (graph s)"
  using assms
  by (auto simp: flush_handle_component_node_def flush_handle_bone_def
      split: if_splits Option.bind_splits option.splits
      dest!: flush_handle_cow_frame(3) tag_component_operations_frame(2))

lemma flush_handle_component_node_trace:
  assumes "flush_handle_component_node env i c s = Some s'"
    and "\<And>c p. kind (Push_Front_Pose c p) = None"
  shows "occurrences kind x (trace s') = occurrences kind x (trace s)"
    and "events_of kind (trace s') = events_of kind (trace s)"
  using assms
  by (auto simp: flush_handle_component_node_def
      split: if_splits Option.bind_splits dest!: flush_handle_bone_trace)

lemma flush_schedule_children_loop_trace:
  assumes "flush_schedule_children_loop rels r s = Some (r', s')"
    and "\<And>p. kind (Push_Front_Child p) = None" "\<And>p. kind (Bypass_Child p) = None"
  shows "occurrences kind x (trace s') = occurrences kind x (trace s)
       \<and> events_of kind (trace s') = events_of kind (trace s)"
  using assms(1)
proof (induction rels r s rule: flush_schedule_children_loop.induct)
  case (1 result s)
  then show ?case by simp
next
  case (2 to_node rels result s)
  then show ?case
    by (cases result) (auto simp: assms(2,3) split: if_splits)
qed

lemma flush_schedule_children_loop_frame:
  assumes "flush_schedule_children_loop rels r s = Some (r', s')"
  shows "comp_nodes (graph s') = comp_nodes (graph s)"
    and "id_nodes (graph s') = id_nodes (graph s)"
    and "entry_tags (graph s') = entry_tags (graph s)"
    and "flag (operations (graph s') ! q) = flag (operations (graph s) ! q)"
  using assms
  by (induction rels r s rule: flush_schedule_children_loop.induct;
      (auto simp: op_update_nth split: if_splits option.splits)[1])+

text \<open>The stages of one iteration of the inner loop.\<close>

lemma flush_visit_stages:
  assumes "flush_visit env p s = Some (r, s')"
  obtains s1 s2 s3 where
    "s1 = s\<lparr>graph := op_update p (\<lambda>n. n\<lparr>flag := flag n OR DEPSOP_FLAG_NEEDS_UPDATE env\<rparr>) (graph s),
             trace := trace s @ [Visit p]\<rparr>"
    and "valid_op (graph s) p"
    and "valid_comp (graph s) (op_owner (operations (graph s) ! p))"
    and "flush_handle_id_node env
           (comp_owner (comp_nodes (graph s) ! op_owner (operations (graph s) ! p))) s1 = Some s2"
    and "flush_handle_component_node env
           (comp_owner (comp_nodes (graph s) ! op_owner (operations (graph s) ! p)))
           (op_owner (operations (graph s) ! p)) s2 = Some s3"
    and "flush_schedule_children_loop (outlinks (operations (graph s) ! p)) None s3 = Some (r, s')"
proof -
  from assms have vp: "valid_op (graph s) p" by (auto simp: flush_visit_def split: if_splits)
  define s1 where "s1 = s\<lparr>graph := op_update p (\<lambda>n. n\<lparr>flag := flag n OR DEPSOP_FLAG_NEEDS_UPDATE env\<rparr>) (graph s),
             trace := trace s @ [Visit p]\<rparr>"
  have o1: "op_owner (operations (graph s1) ! p) = op_owner (operations (graph s) ! p)"
    "outlinks (operations (graph s1) ! p) = outlinks (operations (graph s) ! p)"
    "comp_nodes (graph s1) = comp_nodes (graph s)"
    by (simp_all add: s1_def op_update_nth)
  from assms vp obtain s2 s3 where
    vc: "valid_comp (graph s) (op_owner (operations (graph s) ! p))"
    and s2: "flush_handle_id_node env
           (comp_owner (comp_nodes (graph s) ! op_owner (operations (graph s) ! p))) s1 = Some s2"
    and s3: "flush_handle_component_node env
           (comp_owner (comp_nodes (graph s) ! op_owner (operations (graph s) ! p)))
           (op_owner (operations (graph s) ! p)) s2 = Some s3"
    and ch: "flush_schedule_children p s3 = Some (r, s')"
    unfolding flush_visit_def s1_def [symmetric]
    by (auto simp: o1 valid_comp_def split: if_splits Option.bind_splits)
  have "operations (graph s2) = operations (graph s1)"
    by (rule flush_handle_id_node_frame(1) [OF s2])
  moreover have "outlinks (operations (graph s3) ! p) = outlinks (operations (graph s2) ! p)"
    using flush_handle_component_node_operations [OF s3, of p] by simp
  ultimately have "outlinks (operations (graph s3) ! p) = outlinks (operations (graph s) ! p)"
    by (simp add: o1)
  with ch have "flush_schedule_children_loop (outlinks (operations (graph s) ! p)) None s3 = Some (r, s')"
    by (auto simp: flush_schedule_children_def split: if_splits)
  with that [OF s1_def vp vc s2 s3] show thesis by blast
qed

section \<open>Scheduling happens once\<close>

definition sched_inv :: "flush_state \<Rightarrow> bool" where
  "sched_inv s \<longleftrightarrow>
     (\<forall>p. occurrences scheduled_op p (trace s) =
        (if valid_op (graph s) p \<and> scheduled (operations (graph s) ! p) then 1 else 0))
   \<and> events_of scheduled_op (trace s) + unscheduled (graph s) = length (operations (graph s))"

lemma sched_inv_cong:
  assumes "sched_inv s"
    and "\<And>p. occurrences scheduled_op p (trace s') = occurrences scheduled_op p (trace s)"
    and "events_of scheduled_op (trace s') = events_of scheduled_op (trace s)"
    and "length (operations (graph s')) = length (operations (graph s))"
    and "\<And>p. scheduled (operations (graph s') ! p) = scheduled (operations (graph s) ! p)"
    and "unscheduled (graph s') = unscheduled (graph s)"
  shows "sched_inv s'"
  using assms by (simp add: sched_inv_def valid_op_def)

lemma flush_schedule_children_loop_sched_inv:
  assumes "flush_schedule_children_loop rels r s = Some (r', s')" "sched_inv s"
  shows "sched_inv s'"
  using assms
proof (induction rels r s rule: flush_schedule_children_loop.induct)
  case (1 result s)
  then show ?case by simp
next
  case (2 to_node rels result s)
  from 2(4) have v: "valid_op (graph s) to_node" by (auto split: if_splits)
  show ?case
  proof (cases "scheduled (operations (graph s) ! to_node)")
    case True
    with 2(1,4,5) v show ?thesis by simp
  next
    case False
    have step: "sched_inv (s\<lparr>queue := q, graph := op_update to_node (\<lambda>n. n\<lparr>scheduled := True\<rparr>) (graph s),
                 trace := trace s @ [e]\<rparr>)"
      if "scheduled_op e = Some to_node" for e q
      using 2(5) v False that unscheduled_op_update_schedule [OF v False]
      by (auto simp: sched_inv_def op_update_nth valid_op_def)
    show ?thesis
    proof (cases result)
      case None
      from 2(4) v False None have
        "flush_schedule_children_loop rels (Some to_node)
            (s\<lparr>graph := op_update to_node (\<lambda>n. n\<lparr>scheduled := True\<rparr>) (graph s),
               trace := trace s @ [Bypass_Child to_node]\<rparr>) = Some (r', s')"
        by simp
      moreover have "sched_inv (s\<lparr>graph := op_update to_node (\<lambda>n. n\<lparr>scheduled := True\<rparr>) (graph s),
               trace := trace s @ [Bypass_Child to_node]\<rparr>)"
        using step [of "Bypass_Child to_node" "queue s"] by simp
      ultimately show ?thesis using 2(2) v False None by simp
    next
      case (Some a)
      from 2(4) v False Some have
        "flush_schedule_children_loop rels result
            (s\<lparr>queue := to_node # queue s,
               graph := op_update to_node (\<lambda>n. n\<lparr>scheduled := True\<rparr>) (graph s),
               trace := trace s @ [Push_Front_Child to_node]\<rparr>) = Some (r', s')"
        by simp
      moreover have "sched_inv (s\<lparr>queue := to_node # queue s,
               graph := op_update to_node (\<lambda>n. n\<lparr>scheduled := True\<rparr>) (graph s),
               trace := trace s @ [Push_Front_Child to_node]\<rparr>)"
        using step [of "Push_Front_Child to_node" "to_node # queue s"] by simp
      ultimately show ?thesis using 2(3) v False Some by simp
    qed
  qed
qed

lemma flush_visit_sched_inv:
  assumes "flush_visit env p s = Some (r, s')" "sched_inv s"
  shows "sched_inv s'"
proof -
  from assms(1) obtain s1 s2 s3 where
    s1: "s1 = s\<lparr>graph := op_update p (\<lambda>n. n\<lparr>flag := flag n OR DEPSOP_FLAG_NEEDS_UPDATE env\<rparr>) (graph s),
             trace := trace s @ [Visit p]\<rparr>"
    and s2: "flush_handle_id_node env
           (comp_owner (comp_nodes (graph s) ! op_owner (operations (graph s) ! p))) s1 = Some s2"
    and s3: "flush_handle_component_node env
           (comp_owner (comp_nodes (graph s) ! op_owner (operations (graph s) ! p)))
           (op_owner (operations (graph s) ! p)) s2 = Some s3"
    and ch: "flush_schedule_children_loop (outlinks (operations (graph s) ! p)) None s3 = Some (r, s')"
    by (rule flush_visit_stages)
  have i1: "sched_inv s1"
    using assms(2)
    by (rule sched_inv_cong) (simp_all add: s1 op_update_nth unscheduled_op_update_same)
  have i2: "sched_inv s2"
    using i1
    by (rule sched_inv_cong)
       (simp_all add: flush_handle_id_node_trace [OF s2] flush_handle_id_node_frame(1) [OF s2]
          unscheduled_def)
  have i3: "sched_inv s3"
    using i2
  proof (rule sched_inv_cong)
    show "length (operations (graph s3)) = length (operations (graph s2))"
      using shape_eqD(1) [OF flush_handle_component_node_shape [OF s3]] .
    show "\<And>q. scheduled (operations (graph s3) ! q) = scheduled (operations (graph s2) ! q)"
      using flush_handle_component_node_operations [OF s3] by simp
  qed (simp_all add: flush_handle_component_node_trace [OF s3] flush_handle_component_node_measure(1) [OF s3])
  show ?thesis using ch i3 by (rule flush_schedule_children_loop_sched_inv)
qed

lemma flush_schedule_entrypoints_loop_sched_inv:
  assumes "flush_schedule_entrypoints_loop ps s = Some s'" "sched_inv s"
    and "distinct ps" "\<forall>p \<in> set ps. \<not> scheduled (operations (graph s) ! p)"
  shows "sched_inv s'"
  using assms
proof (induction ps s rule: flush_schedule_entrypoints_loop.induct)
  case (1 s)
  then show ?case by simp
next
  case (2 p ps s)
  from 2(2) have v: "valid_op (graph s) p" by (auto split: if_splits)
  from 2(5) have u: "\<not> scheduled (operations (graph s) ! p)" by simp
  define s1 where "s1 = s\<lparr>queue := queue s @ [p],
                graph := op_update p (\<lambda>n. n\<lparr>scheduled := True\<rparr>) (graph s),
                trace := trace s @ [Push_Back_Entry p]\<rparr>"
  have "sched_inv s1"
    using 2(3) v u unscheduled_op_update_schedule [OF v u]
    by (auto simp: sched_inv_def s1_def op_update_nth valid_op_def)
  moreover have "flush_schedule_entrypoints_loop ps s1 = Some s'"
    using 2(2) v by (simp add: s1_def)
  moreover have "distinct ps" using 2(4) by simp
  moreover have "\<forall>q \<in> set ps. \<not> scheduled (operations (graph s1) ! q)"
    using 2(4,5) by (auto simp: s1_def op_update_nth)
  ultimately show ?case using 2(1) [OF v] by (simp add: s1_def)
qed

lemma flush_schedule_entrypoints_loop_valid:
  "flush_schedule_entrypoints_loop ps s = Some s' \<Longrightarrow> \<forall>p \<in> set ps. valid_op (graph s) p"
  by (induction ps s rule: flush_schedule_entrypoints_loop.induct) (auto split: if_splits)

lemma unscheduled_all:
  "\<forall>p < length (operations g). \<not> scheduled (operations g ! p) \<Longrightarrow>
   unscheduled g = length (operations g)"
  by (simp add: unscheduled_def filter_id_conv all_set_conv_all_nth)

text \<open>The state in which the loop starts has the invariant.\<close>

lemma flush_start_sched_inv:
  assumes "flush_prepare g = Some g1"
    and "flush_schedule_entrypoints \<lparr>graph = g1, queue = [], trace = []\<rparr> = Some s1"
    and "distinct (entry_tags g)"
  shows "sched_inv s1"
proof -
  note p = flush_prepare_effect [OF assms(1)]
  have u: "\<forall>q < length (operations g1). \<not> scheduled (operations g1 ! q)"
    using p(2,3) by simp
  have u': "\<not> scheduled (operations g1 ! q)" if "valid_op g1 q" for q
    using u that by (simp add: valid_op_def)
  have v: "\<forall>q \<in> set (entry_tags g1). valid_op g1 q"
    using flush_schedule_entrypoints_loop_valid [of "entry_tags g1" "\<lparr>graph = g1, queue = [], trace = []\<rparr>" s1]
      assms(2)
    by (simp add: flush_schedule_entrypoints_def)
  have "sched_inv \<lparr>graph = g1, queue = [], trace = []\<rparr>"
    using u unscheduled_all [OF u] by (auto simp: sched_inv_def valid_op_def)
  with assms(2) show ?thesis
    unfolding flush_schedule_entrypoints_def
    by (rule flush_schedule_entrypoints_loop_sched_inv)
       (use assms(3) p(1) u' v in auto)
qed

section \<open>The bone rule pushes a pose entry once\<close>

lemma flush_handle_component_node_cases:
  assumes "flush_handle_component_node env i c s = Some s'"
  obtains
    (handled) "comp_done (comp_nodes (graph s) ! c) = COMPONENT_STATE_DONE" "s' = s"
  | (plain) "comp_done (comp_nodes (graph s) ! c) \<noteq> COMPONENT_STATE_DONE" "valid_comp (graph s) c"
      "comp_nodes (graph s') =
         comp_nodes (comp_update c (\<lambda>n. n\<lparr>comp_done := COMPONENT_STATE_DONE\<rparr>) (graph s))"
      "trace s' = trace s" "queue s' = queue s"
  | (pose) pc where
      "comp_done (comp_nodes (graph s) ! c) \<noteq> COMPONENT_STATE_DONE" "valid_comp (graph s) c"
      "comp_type (comp_nodes (graph s) ! c) = DEG_NODE_TYPE_BONE"
      "find_component (id_nodes (graph s) ! i) DEG_NODE_TYPE_EVAL_POSE = Some pc"
      "valid_comp (graph s) pc" "pc \<noteq> c"
      "comp_done (comp_nodes (graph s) ! pc) = COMPONENT_STATE_NONE"
      "comp_nodes (graph s') =
         comp_nodes (comp_update pc (\<lambda>n. n\<lparr>comp_done := COMPONENT_STATE_SCHEDULED\<rparr>)
           (comp_update c (\<lambda>n. n\<lparr>comp_done := COMPONENT_STATE_DONE\<rparr>) (graph s)))"
      "trace s' = trace s @ [Push_Front_Pose pc (entry_operation (comp_nodes (graph s) ! pc))]"
      "queue s' = entry_operation (comp_nodes (graph s) ! pc) # queue s"
proof (cases "comp_done (comp_nodes (graph s) ! c) = COMPONENT_STATE_DONE")
  case True
  with assms have "s' = s" by (auto simp: flush_handle_component_node_def split: if_splits)
  with True show thesis by (rule handled)
next
  case False
  define g1 where "g1 = comp_update c (\<lambda>n. n\<lparr>comp_done := COMPONENT_STATE_DONE\<rparr>) (graph s)"
  from assms False obtain g2 g3 where vc: "valid_comp (graph s) c"
    and g2: "flush_handle_cow env i c g1 = Some g2"
    and g3: "tag_component_operations env (comp_operations (comp_nodes g2 ! c)) g2 = Some g3"
    and s': "(if comp_type (comp_nodes g3 ! c) = DEG_NODE_TYPE_BONE
        then flush_handle_bone i (s\<lparr>graph := g3\<rparr>)
        else Some (s\<lparr>graph := g3\<rparr>)) = Some s'"
    by (auto simp: flush_handle_component_node_def g1_def split: if_splits Option.bind_splits)
  have c3: "comp_nodes g3 = comp_nodes g1" "id_nodes g3 = id_nodes (graph s)"
    using flush_handle_cow_frame [OF g2] tag_component_operations_frame [OF g3]
    by (simp_all add: g1_def)
  have t: "comp_type (comp_nodes g3 ! c) = comp_type (comp_nodes (graph s) ! c)"
    using vc by (simp add: c3 g1_def comp_update_nth valid_comp_def)
  show thesis
  proof (cases "comp_type (comp_nodes (graph s) ! c) = DEG_NODE_TYPE_BONE")
    case nb: False
    with s' t have "s' = s\<lparr>graph := g3\<rparr>" by simp
    then show thesis using False vc c3 by (intro plain) (simp_all add: g1_def)
  next
    case True
    with s' t have b: "flush_handle_bone i (s\<lparr>graph := g3\<rparr>) = Some s'" by simp
    from flush_handle_bone_trace [OF b] obtain pc where
      f: "find_component (id_nodes g3 ! i) DEG_NODE_TYPE_EVAL_POSE = Some pc"
      and vpc: "valid_comp g3 pc"
      and e: "if comp_done (comp_nodes g3 ! pc) = COMPONENT_STATE_NONE
               then trace s' = trace s @ [Push_Front_Pose pc (entry_operation (comp_nodes g3 ! pc))]
                  \<and> queue s' = entry_operation (comp_nodes g3 ! pc) # queue s
                  \<and> graph s' = comp_update pc (\<lambda>n. n\<lparr>comp_done := COMPONENT_STATE_SCHEDULED\<rparr>) g3
               else s' = s\<lparr>graph := g3\<rparr>"
      by auto
    have vpc': "valid_comp (graph s) pc" using vpc by (simp add: valid_comp_def c3 g1_def)
    show thesis
    proof (cases "comp_done (comp_nodes g3 ! pc) = COMPONENT_STATE_NONE")
      case nn: False
      with e have "s' = s\<lparr>graph := g3\<rparr>" by simp
      then show thesis using False vc c3 by (intro plain) (simp_all add: g1_def)
    next
      case n: True
      have ne: "pc \<noteq> c" using n vc by (auto simp: c3 g1_def comp_update_nth valid_comp_def)
      have n': "comp_done (comp_nodes (graph s) ! pc) = COMPONENT_STATE_NONE"
        using n ne by (simp add: c3 g1_def comp_update_nth)
      have eo: "entry_operation (comp_nodes g1 ! pc) = entry_operation (comp_nodes (graph s) ! pc)"
        using ne by (simp add: g1_def comp_update_nth)
      from e n have e': "trace s' = trace s @ [Push_Front_Pose pc (entry_operation (comp_nodes g3 ! pc))]"
        "queue s' = entry_operation (comp_nodes g3 ! pc) # queue s"
        "graph s' = comp_update pc (\<lambda>n. n\<lparr>comp_done := COMPONENT_STATE_SCHEDULED\<rparr>) g3"
        by simp_all
      have cn: "comp_nodes (graph s') =
         comp_nodes (comp_update pc (\<lambda>n. n\<lparr>comp_done := COMPONENT_STATE_SCHEDULED\<rparr>)
           (comp_update c (\<lambda>n. n\<lparr>comp_done := COMPONENT_STATE_DONE\<rparr>) (graph s)))"
        by (simp add: e'(3) comp_update_def c3 g1_def)
      show thesis
        using False vc True f vpc' ne n' cn e'(1,2)
        by (intro pose [of pc]) (simp_all add: c3 eo)
    qed
  qed
qed

definition pose_inv :: "flush_state \<Rightarrow> bool" where
  "pose_inv s \<longleftrightarrow>
     (\<forall>c. occurrences pose_component c (trace s) \<le>
        (if valid_comp (graph s) c \<and> comp_done (comp_nodes (graph s) ! c) \<noteq> COMPONENT_STATE_NONE
         then 1 else 0))
   \<and> events_of pose_component (trace s) + unhandled (graph s) \<le> length (comp_nodes (graph s))"

lemma pose_inv_cong:
  assumes "pose_inv s"
    and "\<And>c. occurrences pose_component c (trace s') = occurrences pose_component c (trace s)"
    and "events_of pose_component (trace s') = events_of pose_component (trace s)"
    and "comp_nodes (graph s') = comp_nodes (graph s)"
  shows "pose_inv s'"
  using assms by (simp add: pose_inv_def valid_comp_def unhandled_def)

lemma flush_handle_component_node_pose_inv:
  assumes "flush_handle_component_node env i c s = Some s'" "pose_inv s"
  shows "pose_inv s'"
  using assms(1)
proof (cases rule: flush_handle_component_node_cases)
  case handled
  with assms(2) show ?thesis by simp
next
  case plain
  have u: "unhandled (comp_update c (\<lambda>n. n\<lparr>comp_done := COMPONENT_STATE_DONE\<rparr>) (graph s))
          \<le> unhandled (graph s)"
    by (rule unhandled_comp_update_le) simp
  have uu: "unhandled (graph s') = unhandled (comp_update c (\<lambda>n. n\<lparr>comp_done := COMPONENT_STATE_DONE\<rparr>) (graph s))"
    by (simp add: unhandled_def plain(3))
  from assms(2) have a: "\<And>d. occurrences pose_component d (trace s) \<le>
        (if valid_comp (graph s) d \<and> comp_done (comp_nodes (graph s) ! d) \<noteq> COMPONENT_STATE_NONE
         then 1 else 0)"
    and b: "events_of pose_component (trace s) + unhandled (graph s) \<le> length (comp_nodes (graph s))"
    by (simp_all add: pose_inv_def)
  have "occurrences pose_component d (trace s') \<le>
        (if valid_comp (graph s') d \<and> comp_done (comp_nodes (graph s') ! d) \<noteq> COMPONENT_STATE_NONE
         then 1 else 0)" for d
    using a [of d] plain(2)
    by (auto simp: plain(3,4) valid_comp_def comp_update_nth split: if_splits)
  moreover have "events_of pose_component (trace s') + unhandled (graph s') \<le> length (comp_nodes (graph s'))"
    using b u uu by (simp add: plain(3,4))
  ultimately show ?thesis by (simp add: pose_inv_def)
next
  case (pose pc)
  define g1 where "g1 = comp_update c (\<lambda>n. n\<lparr>comp_done := COMPONENT_STATE_DONE\<rparr>) (graph s)"
  have u1: "unhandled g1 \<le> unhandled (graph s)"
    unfolding g1_def by (rule unhandled_comp_update_le) simp
  have v1: "valid_comp g1 pc" using pose(5) by (simp add: g1_def)
  have n1: "comp_done (comp_nodes g1 ! pc) = COMPONENT_STATE_NONE"
    using pose(6,7) by (simp add: g1_def comp_update_nth)
  have u2: "Suc (unhandled (comp_update pc (\<lambda>n. n\<lparr>comp_done := COMPONENT_STATE_SCHEDULED\<rparr>) g1))
      = unhandled g1"
    by (rule unhandled_comp_update_less [OF v1 n1]) simp
  have uu: "unhandled (graph s') = unhandled (comp_update pc (\<lambda>n. n\<lparr>comp_done := COMPONENT_STATE_SCHEDULED\<rparr>) g1)"
    by (simp add: unhandled_def pose(8) g1_def)
  have len: "length (comp_nodes (graph s')) = length (comp_nodes (graph s))"
    by (simp add: pose(8))
  from assms(2) have a: "\<And>d. occurrences pose_component d (trace s) \<le>
        (if valid_comp (graph s) d \<and> comp_done (comp_nodes (graph s) ! d) \<noteq> COMPONENT_STATE_NONE
         then 1 else 0)"
    and b: "events_of pose_component (trace s) + unhandled (graph s) \<le> length (comp_nodes (graph s))"
    by (simp_all add: pose_inv_def)
  have "occurrences pose_component d (trace s') \<le>
        (if valid_comp (graph s') d \<and> comp_done (comp_nodes (graph s') ! d) \<noteq> COMPONENT_STATE_NONE
         then 1 else 0)" for d
    using a [of d] a [of pc] pose(2,5,6,7)
    by (auto simp: pose(8,9) valid_comp_def comp_update_nth split: if_splits)
  moreover have "events_of pose_component (trace s') + unhandled (graph s') \<le> length (comp_nodes (graph s'))"
    using b u1 u2 uu len by (simp add: pose(9))
  ultimately show ?thesis by (simp add: pose_inv_def)
qed

lemma flush_visit_pose_inv:
  assumes "flush_visit env p s = Some (r, s')" "pose_inv s"
  shows "pose_inv s'"
proof -
  from assms(1) obtain s1 s2 s3 where
    s1: "s1 = s\<lparr>graph := op_update p (\<lambda>n. n\<lparr>flag := flag n OR DEPSOP_FLAG_NEEDS_UPDATE env\<rparr>) (graph s),
             trace := trace s @ [Visit p]\<rparr>"
    and s2: "flush_handle_id_node env
           (comp_owner (comp_nodes (graph s) ! op_owner (operations (graph s) ! p))) s1 = Some s2"
    and s3: "flush_handle_component_node env
           (comp_owner (comp_nodes (graph s) ! op_owner (operations (graph s) ! p)))
           (op_owner (operations (graph s) ! p)) s2 = Some s3"
    and ch: "flush_schedule_children_loop (outlinks (operations (graph s) ! p)) None s3 = Some (r, s')"
    by (rule flush_visit_stages)
  have i1: "pose_inv s1"
    using assms(2) by (rule pose_inv_cong) (simp_all add: s1)
  have i2: "pose_inv s2"
    using i1
    by (rule pose_inv_cong)
       (simp_all add: flush_handle_id_node_trace [OF s2] flush_handle_id_node_frame(2) [OF s2])
  have i3: "pose_inv s3" using s3 i2 by (rule flush_handle_component_node_pose_inv)
  show ?thesis
    using i3
    by (rule pose_inv_cong)
       (simp_all add: flush_schedule_children_loop_trace [OF ch]
          flush_schedule_children_loop_frame(1) [OF ch])
qed

lemma occurrences_entries [simp]:
  "occurrences pose_component c (map Push_Back_Entry es) = 0"
  "events_of pose_component (map Push_Back_Entry es) = 0"
  "occurrences visited_op p (map Push_Back_Entry es) = 0"
  "occurrences notified_id i (map Push_Back_Entry es) = 0"
  "occurrences recalc_tagged_id i (map Push_Back_Entry es) = 0"
  "occurrences recalc_data_tagged_id i (map Push_Back_Entry es) = 0"
  by (induction es) simp_all

lemma flush_start_pose_inv:
  assumes "flush_schedule_entrypoints \<lparr>graph = g1, queue = [], trace = []\<rparr> = Some s1"
  shows "pose_inv s1"
  using flush_schedule_entrypoints_effect(2,3) [OF assms]
  by (simp add: pose_inv_def unhandled_def)

lemma events_of_inserted_le:
  "events_of inserted_op tr \<le> events_of scheduled_op tr + events_of pose_component tr"
proof (induction tr)
  case Nil
  then show ?case by simp
next
  case (Cons e tr)
  then show ?case by (cases e) simp_all
qed

section \<open>Invariants of a whole flush\<close>

lemma flush_loop_shape:
  assumes "flush_loop env a s = Some s'"
  shows "shape (graph s') = shape (graph s)"
proof -
  have "shape (graph s') = shape (graph s) \<and> queue s' = []"
    using assms
  proof (rule flush_loop_rule [where I = "\<lambda>a t. shape (graph t) = shape (graph s)"])
    show "shape (graph s) = shape (graph s)" ..
  next
    fix p r and t t1 :: flush_state
    assume "shape (graph t) = shape (graph s)" "flush_visit env p t = Some (r, t1)"
    then show "shape (graph t1) = shape (graph s)" using flush_visit_shape by fastforce
  next
    fix p q and t :: flush_state
    assume "shape (graph t) = shape (graph s)"
    then show "shape (graph (t\<lparr>queue := q\<rparr>)) = shape (graph s)" by simp
  qed
  then show ?thesis ..
qed

lemma deg_graph_flush_updates_shape:
  assumes "deg_graph_flush_updates env g = Some s"
  shows "shape (graph s) = shape g"
proof (cases "entry_tags g = []")
  case True
  with assms show ?thesis by (auto simp: deg_graph_flush_updates_def)
next
  case False
  from assms False obtain g1 s1 where g1: "flush_prepare g = Some g1"
    and s1: "flush_schedule_entrypoints \<lparr>graph = g1, queue = [], trace = []\<rparr> = Some s1"
    and l: "flush_loop env None s1 = Some s"
    by (rule deg_graph_flush_updates_stages)
  have "shape (graph s1) = shape g1"
    using flush_schedule_entrypoints_loop_shape [of "entry_tags g1" "\<lparr>graph = g1, queue = [], trace = []\<rparr>" s1] s1
    by (simp add: flush_schedule_entrypoints_def)
  with flush_prepare_shape [OF g1] flush_loop_shape [OF l] show ?thesis by simp
qed

lemma deg_graph_flush_updates_queue:
  assumes "deg_graph_flush_updates env g = Some s"
  shows "queue s = []"
proof (cases "entry_tags g = []")
  case True
  with assms show ?thesis by (auto simp: deg_graph_flush_updates_def)
next
  case False
  from assms False obtain s1 where l: "flush_loop env None s1 = Some s"
    by (auto elim: deg_graph_flush_updates_stages)
  have "True \<and> queue s = []"
    using l by (rule flush_loop_rule [where I = "\<lambda>a t. True"]) simp_all
  then show ?thesis ..
qed

lemma deg_graph_flush_updates_sched_inv:
  assumes "deg_graph_flush_updates env g = Some s" "entry_tags g \<noteq> []" "distinct (entry_tags g)"
  shows "sched_inv s"
proof -
  from assms(1,2) obtain g1 s1 where g1: "flush_prepare g = Some g1"
    and s1: "flush_schedule_entrypoints \<lparr>graph = g1, queue = [], trace = []\<rparr> = Some s1"
    and l: "flush_loop env None s1 = Some s"
    by (rule deg_graph_flush_updates_stages)
  have "sched_inv s \<and> queue s = []"
    using l
  proof (rule flush_loop_rule [where I = "\<lambda>a t. sched_inv t"])
    show "sched_inv s1" using g1 s1 assms(3) by (rule flush_start_sched_inv)
  next
    fix p r and t t1 :: flush_state
    assume "sched_inv t" "flush_visit env p t = Some (r, t1)"
    then show "sched_inv t1" using flush_visit_sched_inv by blast
  next
    fix p q and t :: flush_state
    assume "sched_inv t"
    then show "sched_inv (t\<lparr>queue := q\<rparr>)" by (simp add: sched_inv_def)
  qed
  then show ?thesis ..
qed

lemma deg_graph_flush_updates_pose_inv:
  assumes "deg_graph_flush_updates env g = Some s"
  shows "pose_inv s"
proof (cases "entry_tags g = []")
  case True
  with assms show ?thesis
    by (auto simp: deg_graph_flush_updates_def pose_inv_def unhandled_def)
next
  case False
  from assms False obtain g1 s1 where g1: "flush_prepare g = Some g1"
    and s1: "flush_schedule_entrypoints \<lparr>graph = g1, queue = [], trace = []\<rparr> = Some s1"
    and l: "flush_loop env None s1 = Some s"
    by (rule deg_graph_flush_updates_stages)
  have "pose_inv s \<and> queue s = []"
    using l
  proof (rule flush_loop_rule [where I = "\<lambda>a t. pose_inv t"])
    show "pose_inv s1" using s1 by (rule flush_start_pose_inv)
  next
    fix p r and t t1 :: flush_state
    assume "pose_inv t" "flush_visit env p t = Some (r, t1)"
    then show "pose_inv t1" using flush_visit_pose_inv by blast
  next
    fix p q and t :: flush_state
    assume "pose_inv t"
    then show "pose_inv (t\<lparr>queue := q\<rparr>)" by (simp add: pose_inv_def)
  qed
  then show ?thesis ..
qed

fun pose_entry_op :: "flush_event \<Rightarrow> nat option" where
  "pose_entry_op (Push_Front_Pose c p) = Some p"
| "pose_entry_op _ = None"

lemma occurrences_inserted_le:
  "occurrences inserted_op p tr \<le> occurrences scheduled_op p tr + occurrences pose_entry_op p tr"
proof (induction tr)
  case Nil
  then show ?case by simp
next
  case (Cons e tr)
  then show ?case by (cases e) simp_all
qed

lemma flush_insertions_bounded:
  assumes "deg_graph_flush_updates env g = Some s" "distinct (entry_tags g)"
  shows "events_of inserted_op (trace s) \<le> length (operations g) + length (comp_nodes g)"
proof (cases "entry_tags g = []")
  case True
  with assms show ?thesis by (auto simp: deg_graph_flush_updates_def)
next
  case False
  note sh = deg_graph_flush_updates_shape [OF assms(1)]
  from deg_graph_flush_updates_sched_inv [OF assms(1) False assms(2)]
  have "events_of scheduled_op (trace s) \<le> length (operations g)"
    using shape_eqD(1) [OF sh] by (simp add: sched_inv_def)
  moreover from deg_graph_flush_updates_pose_inv [OF assms(1)]
  have "events_of pose_component (trace s) \<le> length (comp_nodes g)"
    using shape_eqD(2) [OF sh] by (simp add: pose_inv_def)
  ultimately show ?thesis
    using events_of_inserted_le [of "trace s"] by simp
qed

text \<open>
  An armature with two bones: operation 0 drives the bone operations 1 and 3, which are in
  two bone components of the same entity; operation 2 is the entry of the pose component.
\<close>

definition g_armature :: Depsgraph where
  "g_armature =
     \<lparr>operations = [mk_op (DEG_OPCODE_OTHER 0) [1, 3] 0, mk_op (DEG_OPCODE_OTHER 1) [] 1,
                    mk_op (DEG_OPCODE_OTHER 2) [] 2, mk_op (DEG_OPCODE_OTHER 3) [] 3],
      comp_nodes = [mk_comp (DEG_NODE_TYPE_OTHER 0) [0] 0 0 False,
                    mk_comp DEG_NODE_TYPE_BONE [1] 0 1 False,
                    mk_comp DEG_NODE_TYPE_EVAL_POSE [2] 0 2 False,
                    mk_comp DEG_NODE_TYPE_BONE [3] 0 3 False],
      id_nodes = [mk_id [(DEG_NODE_TYPE_OTHER 0, 0), (DEG_NODE_TYPE_BONE, 1),
                         (DEG_NODE_TYPE_EVAL_POSE, 2), (DEG_NODE_TYPE_BONE, 3)] True],
      entry_tags = [0]\<rparr>"

section \<open>Entities are handled once\<close>

definition entity_of :: "Depsgraph \<Rightarrow> nat \<Rightarrow> nat" where
  "entity_of g p = comp_owner (comp_nodes g ! op_owner (operations g ! p))"

definition id_inv :: "flush_state \<Rightarrow> bool" where
  "id_inv s \<longleftrightarrow>
     (\<forall>i. occurrences recalc_tagged_id i (trace s) =
            (if valid_id (graph s) i \<and> id_done (id_nodes (graph s) ! i) then 1 else 0)
        \<and> occurrences recalc_data_tagged_id i (trace s) =
            (if valid_id (graph s) i \<and> id_done (id_nodes (graph s) ! i) then 1 else 0)
        \<and> occurrences notified_id i (trace s) =
            (if valid_id (graph s) i \<and> id_done (id_nodes (graph s) ! i)
                \<and> id_cow_expanded (id_nodes (graph s) ! i) then 1 else 0))"

definition visit_inv :: "flush_state \<Rightarrow> bool" where
  "visit_inv s \<longleftrightarrow>
     (\<forall>p. 0 < occurrences visited_op p (trace s) \<longrightarrow>
        valid_op (graph s) p \<and> valid_comp (graph s) (op_owner (operations (graph s) ! p))
      \<and> valid_id (graph s) (entity_of (graph s) p)
      \<and> id_done (id_nodes (graph s) ! entity_of (graph s) p))"

lemma id_inv_cong:
  assumes "id_inv s"
    and "\<And>i. occurrences recalc_tagged_id i (trace s') = occurrences recalc_tagged_id i (trace s)"
    and "\<And>i. occurrences recalc_data_tagged_id i (trace s') = occurrences recalc_data_tagged_id i (trace s)"
    and "\<And>i. occurrences notified_id i (trace s') = occurrences notified_id i (trace s)"
    and "id_nodes (graph s') = id_nodes (graph s)"
  shows "id_inv s'"
  using assms by (simp add: id_inv_def valid_id_def)

lemma flush_handle_id_node_id_inv:
  assumes "flush_handle_id_node env i s = Some s'" "id_inv s"
  shows "id_inv s'"
proof (cases "id_done (id_nodes (graph s) ! i)")
  case True
  with assms show ?thesis by (auto simp: flush_handle_id_node_def Let_def split: if_splits)
next
  case False
  from assms(1) have v: "valid_id (graph s) i"
    by (auto simp: flush_handle_id_node_def split: if_splits)
  from assms(1) False v have g: "graph s' = id_update i
            (\<lambda>n. n\<lparr>id_done := True,
                   id_cow_tag := id_cow_tag n OR (id_orig_tag n AND LIB_TAG_ID_RECALC_ALL env)\<rparr>)
            (graph s)"
    by (auto simp: flush_handle_id_node_def Let_def)
  note t = flush_handle_id_node_trace [OF assms(1)]
  from assms(2) have a: "\<And>j. occurrences recalc_tagged_id j (trace s) =
            (if valid_id (graph s) j \<and> id_done (id_nodes (graph s) ! j) then 1 else 0)"
    "\<And>j. occurrences recalc_data_tagged_id j (trace s) =
            (if valid_id (graph s) j \<and> id_done (id_nodes (graph s) ! j) then 1 else 0)"
    "\<And>j. occurrences notified_id j (trace s) =
            (if valid_id (graph s) j \<and> id_done (id_nodes (graph s) ! j)
                \<and> id_cow_expanded (id_nodes (graph s) ! j) then 1 else 0)"
    by (simp_all add: id_inv_def)
  show ?thesis
    unfolding id_inv_def
  proof (intro allI conjI)
    fix j
    show "occurrences recalc_tagged_id j (trace s') =
            (if valid_id (graph s') j \<and> id_done (id_nodes (graph s') ! j) then 1 else 0)"
      using a(1) [of j] False v by (auto simp: t g id_update_nth valid_id_def)
    show "occurrences recalc_data_tagged_id j (trace s') =
            (if valid_id (graph s') j \<and> id_done (id_nodes (graph s') ! j) then 1 else 0)"
      using a(2) [of j] False v by (auto simp: t g id_update_nth valid_id_def)
    show "occurrences notified_id j (trace s') =
            (if valid_id (graph s') j \<and> id_done (id_nodes (graph s') ! j)
                \<and> id_cow_expanded (id_nodes (graph s') ! j) then 1 else 0)"
      using a(3) [of j] False v by (auto simp: t g id_update_nth valid_id_def)
  qed
qed

lemma flush_handle_id_node_done:
  assumes "flush_handle_id_node env i s = Some s'"
  shows "valid_id (graph s') i" and "id_done (id_nodes (graph s') ! i)"
    and "id_done (id_nodes (graph s) ! j) \<Longrightarrow> id_done (id_nodes (graph s') ! j)"
  using assms
  by (auto simp: flush_handle_id_node_def Let_def id_update_nth valid_id_def split: if_splits)

lemma flush_visit_id_inv:
  assumes "flush_visit env p s = Some (r, s')" "id_inv s" "visit_inv s"
  shows "id_inv s'" and "visit_inv s'"
proof -
  from assms(1) obtain s1 s2 s3 where
    s1: "s1 = s\<lparr>graph := op_update p (\<lambda>n. n\<lparr>flag := flag n OR DEPSOP_FLAG_NEEDS_UPDATE env\<rparr>) (graph s),
             trace := trace s @ [Visit p]\<rparr>"
    and vp: "valid_op (graph s) p"
    and vc: "valid_comp (graph s) (op_owner (operations (graph s) ! p))"
    and s2: "flush_handle_id_node env
           (comp_owner (comp_nodes (graph s) ! op_owner (operations (graph s) ! p))) s1 = Some s2"
    and s3: "flush_handle_component_node env
           (comp_owner (comp_nodes (graph s) ! op_owner (operations (graph s) ! p)))
           (op_owner (operations (graph s) ! p)) s2 = Some s3"
    and ch: "flush_schedule_children_loop (outlinks (operations (graph s) ! p)) None s3 = Some (r, s')"
    by (rule flush_visit_stages)
  have i1: "id_inv s1" using assms(2) by (rule id_inv_cong) (simp_all add: s1)
  have i2: "id_inv s2" using s2 i1 by (rule flush_handle_id_node_id_inv)
  have i3: "id_inv s3"
    using i2
    by (rule id_inv_cong)
       (simp_all add: flush_handle_component_node_trace [OF s3]
          flush_handle_component_node_id_nodes [OF s3])
  show "id_inv s'"
    using i3
    by (rule id_inv_cong)
       (simp_all add: flush_schedule_children_loop_trace [OF ch]
          flush_schedule_children_loop_frame(2) [OF ch])
  have ids: "id_nodes (graph s') = id_nodes (graph s2)"
    using flush_handle_component_node_id_nodes [OF s3] flush_schedule_children_loop_frame(2) [OF ch]
    by simp
  have sh: "shape (graph s') = shape (graph s)" by (rule flush_visit_shape [OF assms(1)])
  have ent: "entity_of (graph s') q = entity_of (graph s) q"
    if "valid_op (graph s) q" "valid_comp (graph s) (op_owner (operations (graph s) ! q))" for q
    using that shape_fields(3,6) [OF sh] by (simp add: entity_of_def)
  have d2: "id_done (id_nodes (graph s2) ! entity_of (graph s) p)"
    "valid_id (graph s2) (entity_of (graph s) p)"
    using flush_handle_id_node_done(1,2) [OF s2] by (simp_all add: entity_of_def)
  have mono: "id_done (id_nodes (graph s') ! j)" if "id_done (id_nodes (graph s) ! j)" for j
    using that flush_handle_id_node_done(3) [OF s2, of j] by (simp add: ids s1)
  have tr: "occurrences visited_op q (trace s') = (if q = p then 1 else 0) + occurrences visited_op q (trace s)"
    for q
    using flush_schedule_children_loop_trace [OF ch, of visited_op q]
      flush_handle_component_node_trace(1) [OF s3, of visited_op q]
    by (simp add: flush_handle_id_node_trace [OF s2] s1)
  show "visit_inv s'"
    unfolding visit_inv_def
  proof (intro allI impI)
    fix q
    assume q: "0 < occurrences visited_op q (trace s')"
    show "valid_op (graph s') q \<and> valid_comp (graph s') (op_owner (operations (graph s') ! q))
      \<and> valid_id (graph s') (entity_of (graph s') q)
      \<and> id_done (id_nodes (graph s') ! entity_of (graph s') q)"
    proof (cases "q = p")
      case True
      with vp vc d2 ent [of p] show ?thesis
        using shape_valid [OF sh] shape_fields(3) [OF sh, of p]
        by (simp add: ids valid_id_def)
    next
      case False
      with q tr [of q] have "0 < occurrences visited_op q (trace s)" by simp
      with assms(3) have old: "valid_op (graph s) q"
        "valid_comp (graph s) (op_owner (operations (graph s) ! q))"
        "valid_id (graph s) (entity_of (graph s) q)"
        "id_done (id_nodes (graph s) ! entity_of (graph s) q)"
        by (simp_all add: visit_inv_def)
      with ent [of q] mono show ?thesis
        using shape_valid [OF sh] shape_fields(3) [OF sh, of q] by simp
    qed
  qed
qed

lemma flush_start_id_inv:
  assumes "flush_prepare g = Some g1"
    and "flush_schedule_entrypoints \<lparr>graph = g1, queue = [], trace = []\<rparr> = Some s1"
  shows "id_inv s1" and "visit_inv s1"
  using flush_schedule_entrypoints_effect(2,4) [OF assms(2)] flush_prepare_effect(4) [OF assms(1)]
  by (auto simp: id_inv_def visit_inv_def valid_id_def)

lemma deg_graph_flush_updates_id_inv:
  assumes "deg_graph_flush_updates env g = Some s" "entry_tags g \<noteq> []"
  shows "id_inv s \<and> visit_inv s"
proof -
  from assms obtain g1 s1 where g1: "flush_prepare g = Some g1"
    and s1: "flush_schedule_entrypoints \<lparr>graph = g1, queue = [], trace = []\<rparr> = Some s1"
    and l: "flush_loop env None s1 = Some s"
    by (rule deg_graph_flush_updates_stages)
  have "(id_inv s \<and> visit_inv s) \<and> queue s = []"
    using l
  proof (rule flush_loop_rule [where I = "\<lambda>a t. id_inv t \<and> visit_inv t"])
    show "id_inv s1 \<and> visit_inv s1" using flush_start_id_inv [OF g1 s1] by simp
  next
    fix p r and t t1 :: flush_state
    assume "id_inv t \<and> visit_inv t" "flush_visit env p t = Some (r, t1)"
    then show "id_inv t1 \<and> visit_inv t1" using flush_visit_id_inv by blast
  next
    fix p q and t :: flush_state
    assume "id_inv t \<and> visit_inv t"
    then show "id_inv (t\<lparr>queue := q\<rparr>) \<and> visit_inv (t\<lparr>queue := q\<rparr>)"
      by (simp add: id_inv_def visit_inv_def)
  qed
  then show ?thesis ..
qed

section \<open>The done marker of a component only moves forward\<close>

fun state_rank :: "eComponentState \<Rightarrow> nat" where
  "state_rank COMPONENT_STATE_NONE = 0"
| "state_rank COMPONENT_STATE_SCHEDULED = 1"
| "state_rank COMPONENT_STATE_DONE = 2"

definition done_le :: "Depsgraph \<Rightarrow> Depsgraph \<Rightarrow> bool" where
  "done_le g g' \<longleftrightarrow>
     length (comp_nodes g') = length (comp_nodes g)
   \<and> (\<forall>c. state_rank (comp_done (comp_nodes g ! c)) \<le> state_rank (comp_done (comp_nodes g' ! c)))"

lemma done_le_refl: "done_le g g"
  by (simp add: done_le_def)

lemma done_le_trans: "done_le g g' \<Longrightarrow> done_le g' g'' \<Longrightarrow> done_le g g''"
  by (auto simp: done_le_def intro: order_trans)

lemma done_le_same: "comp_nodes g' = comp_nodes g \<Longrightarrow> done_le g g'"
  by (simp add: done_le_def)

lemma state_rank_le_done [simp]: "state_rank x \<le> 2"
  by (cases x) simp_all

lemma flush_handle_component_node_done_le:
  assumes "flush_handle_component_node env i c s = Some s'"
  shows "done_le (graph s) (graph s')"
  using assms
proof (cases rule: flush_handle_component_node_cases)
  case handled
  then show ?thesis by (simp add: done_le_refl)
next
  case plain
  then show ?thesis by (auto simp: done_le_def comp_update_nth)
next
  case (pose pc)
  then show ?thesis by (auto simp: done_le_def comp_update_nth)
qed

lemma flush_visit_done_le:
  assumes "flush_visit env p s = Some (r, s')"
  shows "done_le (graph s) (graph s')"
proof -
  from assms(1) obtain s1 s2 s3 where
    s1: "s1 = s\<lparr>graph := op_update p (\<lambda>n. n\<lparr>flag := flag n OR DEPSOP_FLAG_NEEDS_UPDATE env\<rparr>) (graph s),
             trace := trace s @ [Visit p]\<rparr>"
    and s2: "flush_handle_id_node env
           (comp_owner (comp_nodes (graph s) ! op_owner (operations (graph s) ! p))) s1 = Some s2"
    and s3: "flush_handle_component_node env
           (comp_owner (comp_nodes (graph s) ! op_owner (operations (graph s) ! p)))
           (op_owner (operations (graph s) ! p)) s2 = Some s3"
    and ch: "flush_schedule_children_loop (outlinks (operations (graph s) ! p)) None s3 = Some (r, s')"
    by (rule flush_visit_stages)
  have "comp_nodes (graph s2) = comp_nodes (graph s)"
    using flush_handle_id_node_frame(2) [OF s2] by (simp add: s1)
  then have "done_le (graph s) (graph s2)" by (rule done_le_same)
  moreover have "done_le (graph s2) (graph s3)" by (rule flush_handle_component_node_done_le [OF s3])
  moreover have "done_le (graph s3) (graph s')"
    by (rule done_le_same [OF flush_schedule_children_loop_frame(1) [OF ch]])
  ultimately show ?thesis by (rule done_le_trans [OF done_le_trans])
qed

lemma flush_loop_done_le:
  assumes "flush_loop env a s = Some s'"
  shows "done_le (graph s) (graph s')"
proof -
  have "done_le (graph s) (graph s') \<and> queue s' = []"
    using assms
  proof (rule flush_loop_rule [where I = "\<lambda>a t. done_le (graph s) (graph t)"])
    show "done_le (graph s) (graph s)" by (rule done_le_refl)
  next
    fix p r and t t1 :: flush_state
    assume "done_le (graph s) (graph t)" "flush_visit env p t = Some (r, t1)"
    then show "done_le (graph s) (graph t1)"
      by (rule done_le_trans [OF _ flush_visit_done_le])
  next
    fix p q and t :: flush_state
    assume "done_le (graph s) (graph t)"
    then show "done_le (graph s) (graph (t\<lparr>queue := q\<rparr>))" by simp
  qed
  then show ?thesis ..
qed

lemma reset_components_none:
  "reset_components cs g = Some g' \<Longrightarrow>
     length (comp_nodes g') = length (comp_nodes g)
   \<and> (\<forall>c. c \<in> set cs \<or> comp_done (comp_nodes g ! c) = COMPONENT_STATE_NONE
          \<longrightarrow> comp_done (comp_nodes g' ! c) = COMPONENT_STATE_NONE)"
proof (induction cs g rule: reset_components.induct)
  case (1 g)
  then show ?case by simp
next
  case (2 c cs g)
  from 2(2) have v: "valid_comp g c" by (simp split: if_splits)
  with 2(2) have r: "reset_components cs (comp_update c (\<lambda>n. n\<lparr>comp_done := COMPONENT_STATE_NONE\<rparr>) g) = Some g'"
    by simp
  from 2(1) [OF v r] v show ?case
    by (simp add: comp_update_nth valid_comp_def)
qed


lemma flush_prepare_none:
  assumes "flush_prepare g = Some g'" "valid_id g i" "c \<in> set (map snd (components (id_nodes g ! i)))"
  shows "comp_done (comp_nodes g' ! c) = COMPONENT_STATE_NONE"
proof -
  from assms(1) obtain g1 where
    1: "BLI_task_parallel_range [0 ..< length (operations g)] flush_init_operation_node_func g = Some g1"
    and 2: "BLI_task_parallel_range [0 ..< length (id_nodes g1)] flush_init_id_node_func g1 = Some g'"
    by (auto simp: flush_prepare_def split: option.splits)
  have sh1: "shape g1 = shape g"
    using 1 by (rule BLI_task_parallel_range_shape [rotated])
      (auto simp: flush_init_operation_node_func_def split: if_splits)
  define Q where "Q = (\<lambda>(pre :: nat list) (g2 :: Depsgraph). shape g2 = shape g
      \<and> (\<forall>j \<in> set pre. \<forall>d \<in> set (map snd (components (id_nodes g ! j))).
            comp_done (comp_nodes g2 ! d) = COMPONENT_STATE_NONE))"
  have "Q ([] @ [0 ..< length (id_nodes g1)]) g'"
    using 2
  proof (rule BLI_task_parallel_range_induct)
    show "Q [] g1" by (simp add: Q_def sh1)
  next
    fix ga j gb pre
    assume a: "Q pre ga" "flush_init_id_node_func ga j = Some gb"
    from a(1) have sha: "shape ga = shape g" by (simp add: Q_def)
    from a(2) obtain r: "reset_components (map snd (components (id_nodes ga ! j)))
             (id_update j (\<lambda>n. n\<lparr>id_done := False\<rparr>) ga) = Some gb" and v: "valid_id ga j"
      by (auto simp: flush_init_id_node_func_def split: if_splits)
    have vj: "valid_id g j" using v shape_valid(3) [OF sha] by simp
    have cj: "components (id_nodes ga ! j) = components (id_nodes g ! j)"
      using shape_fields(9) [OF sha vj] .
    have shb: "shape gb = shape g"
      using reset_components_shape [OF r] sha by simp
    from reset_components_none [OF r] have
      n: "\<And>d. d \<in> set (map snd (components (id_nodes g ! j))) \<or>
            comp_done (comp_nodes ga ! d) = COMPONENT_STATE_NONE
          \<Longrightarrow> comp_done (comp_nodes gb ! d) = COMPONENT_STATE_NONE"
      by (auto simp: cj)
    from a(1) have old: "\<And>k d. k \<in> set pre \<Longrightarrow> d \<in> set (map snd (components (id_nodes g ! k)))
        \<Longrightarrow> comp_done (comp_nodes ga ! d) = COMPONENT_STATE_NONE"
      by (auto simp: Q_def)
    show "Q (pre @ [j]) gb"
      unfolding Q_def using shb n old by auto
  qed
  moreover have "i \<in> set [0 ..< length (id_nodes g1)]"
    using assms(2) shape_eqD(3) [OF sh1] by (simp add: valid_id_def)
  ultimately show ?thesis using assms(3) by (auto simp: Q_def)
qed

lemma deg_graph_flush_updates_done_le:
  assumes "flush_prepare g = Some g1" "deg_graph_flush_updates env g = Some s" "entry_tags g \<noteq> []"
  shows "done_le g1 (graph s)"
proof -
  from assms(2,3) obtain g1' s1 where g1: "flush_prepare g = Some g1'"
    and s1: "flush_schedule_entrypoints \<lparr>graph = g1', queue = [], trace = []\<rparr> = Some s1"
    and l: "flush_loop env None s1 = Some s"
    by (rule deg_graph_flush_updates_stages)
  from g1 assms(1) have e: "g1' = g1" by simp
  have "done_le g1 (graph s1)"
    using flush_schedule_entrypoints_effect(3) [OF s1] by (simp add: e done_le_same)
  then show ?thesis using flush_loop_done_le [OF l] by (rule done_le_trans)
qed

section \<open>The entry set during a flush\<close>

definition entry_grows :: "flush_env \<Rightarrow> Depsgraph \<Rightarrow> Depsgraph \<Rightarrow> bool" where
  "entry_grows env g g' \<longleftrightarrow>
     set (entry_tags g) \<subseteq> set (entry_tags g')
   \<and> (\<not> use_copy_on_write env \<longrightarrow> entry_tags g' = entry_tags g)"

lemma entry_grows_refl: "entry_grows env g g"
  by (simp add: entry_grows_def)

lemma entry_grows_trans: "entry_grows env g g' \<Longrightarrow> entry_grows env g' g'' \<Longrightarrow> entry_grows env g g''"
  by (auto simp: entry_grows_def)

lemma entry_grows_same: "entry_tags g' = entry_tags g \<Longrightarrow> entry_grows env g g'"
  by (simp add: entry_grows_def)

lemma set_fold_add_entry_tag: "set (fold add_entry_tag ps es) = set es \<union> set ps"
  by (induction ps arbitrary: es) (auto simp: add_entry_tag_def)

lemma flush_handle_cow_entry:
  assumes "flush_handle_cow env i c g = Some g'"
  shows "entry_grows env g g'"
  using assms
  by (auto simp: flush_handle_cow_def tag_update_def entry_grows_def set_fold_add_entry_tag
      split: if_splits option.splits)

lemma flush_handle_bone_entry:
  "flush_handle_bone i s = Some s' \<Longrightarrow> entry_tags (graph s') = entry_tags (graph s)"
  by (auto simp: flush_handle_bone_def split: if_splits option.splits)

lemma flush_handle_component_node_entry:
  assumes "flush_handle_component_node env i c s = Some s'"
  shows "entry_grows env (graph s) (graph s')"
proof (cases "comp_done (comp_nodes (graph s) ! c) = COMPONENT_STATE_DONE")
  case True
  with assms show ?thesis
    by (auto simp: flush_handle_component_node_def entry_grows_refl split: if_splits)
next
  case False
  define g1 where "g1 = comp_update c (\<lambda>n. n\<lparr>comp_done := COMPONENT_STATE_DONE\<rparr>) (graph s)"
  from assms False obtain g2 g3 where
    g2: "flush_handle_cow env i c g1 = Some g2"
    and g3: "tag_component_operations env (comp_operations (comp_nodes g2 ! c)) g2 = Some g3"
    and s': "(if comp_type (comp_nodes g3 ! c) = DEG_NODE_TYPE_BONE
        then flush_handle_bone i (s\<lparr>graph := g3\<rparr>)
        else Some (s\<lparr>graph := g3\<rparr>)) = Some s'"
    by (auto simp: flush_handle_component_node_def g1_def split: if_splits Option.bind_splits)
  have "entry_grows env (graph s) g1" by (rule entry_grows_same) (simp add: g1_def)
  moreover have "entry_grows env g1 g2" by (rule flush_handle_cow_entry [OF g2])
  moreover have "entry_grows env g2 (graph s')"
  proof (rule entry_grows_same)
    have "entry_tags (graph s') = entry_tags g3"
      using s' flush_handle_bone_entry [of i "s\<lparr>graph := g3\<rparr>" s'] by (auto split: if_splits)
    then show "entry_tags (graph s') = entry_tags g2"
      using tag_component_operations_frame(3) [OF g3] by simp
  qed
  ultimately show ?thesis by (rule entry_grows_trans [OF entry_grows_trans])
qed

lemma flush_visit_entry:
  assumes "flush_visit env p s = Some (r, s')"
  shows "entry_grows env (graph s) (graph s')"
proof -
  from assms(1) obtain s1 s2 s3 where
    s1: "s1 = s\<lparr>graph := op_update p (\<lambda>n. n\<lparr>flag := flag n OR DEPSOP_FLAG_NEEDS_UPDATE env\<rparr>) (graph s),
             trace := trace s @ [Visit p]\<rparr>"
    and s2: "flush_handle_id_node env
           (comp_owner (comp_nodes (graph s) ! op_owner (operations (graph s) ! p))) s1 = Some s2"
    and s3: "flush_handle_component_node env
           (comp_owner (comp_nodes (graph s) ! op_owner (operations (graph s) ! p)))
           (op_owner (operations (graph s) ! p)) s2 = Some s3"
    and ch: "flush_schedule_children_loop (outlinks (operations (graph s) ! p)) None s3 = Some (r, s')"
    by (rule flush_visit_stages)
  have "entry_tags (graph s2) = entry_tags (graph s)"
    using flush_handle_id_node_frame(3) [OF s2] by (simp add: s1)
  then have "entry_grows env (graph s) (graph s2)" by (rule entry_grows_same)
  moreover have "entry_grows env (graph s2) (graph s3)"
    by (rule flush_handle_component_node_entry [OF s3])
  moreover have "entry_grows env (graph s3) (graph s')"
    by (rule entry_grows_same [OF flush_schedule_children_loop_frame(3) [OF ch]])
  ultimately show ?thesis by (rule entry_grows_trans [OF entry_grows_trans])
qed

lemma deg_graph_flush_updates_entry:
  assumes "deg_graph_flush_updates env g = Some s"
  shows "entry_grows env g (graph s)"
proof (cases "entry_tags g = []")
  case True
  with assms show ?thesis by (auto simp: deg_graph_flush_updates_def entry_grows_def)
next
  case False
  from assms False obtain g1 s1 where g1: "flush_prepare g = Some g1"
    and s1: "flush_schedule_entrypoints \<lparr>graph = g1, queue = [], trace = []\<rparr> = Some s1"
    and l: "flush_loop env None s1 = Some s"
    by (rule deg_graph_flush_updates_stages)
  have 0: "entry_grows env g (graph s1)"
    using flush_prepare_effect(1) [OF g1] flush_schedule_entrypoints_effect(5) [OF s1]
    by (simp add: entry_grows_same)
  have "entry_grows env g (graph s) \<and> queue s = []"
    using l
  proof (rule flush_loop_rule [where I = "\<lambda>a t. entry_grows env g (graph t)"])
    show "entry_grows env g (graph s1)" by (rule 0)
  next
    fix p r and t t1 :: flush_state
    assume "entry_grows env g (graph t)" "flush_visit env p t = Some (r, t1)"
    then show "entry_grows env g (graph t1)"
      by (rule entry_grows_trans [OF _ flush_visit_entry])
  next
    fix p q and t :: flush_state
    assume "entry_grows env g (graph t)"
    then show "entry_grows env g (graph (t\<lparr>queue := q\<rparr>))" by simp
  qed
  then show ?thesis ..
qed

lemma cleared_bits:
  "bit (flag (cleared env n)) k \<longleftrightarrow>
     bit (flag n) k \<and> \<not> bit (DEPSOP_FLAG_DIRECTLY_MODIFIED env) k
       \<and> \<not> bit (DEPSOP_FLAG_NEEDS_UPDATE env) k"
  by (auto simp: cleared_def bit_simps dest: bit_imp_le_length)

lemma cleared_fields:
  "scheduled (cleared env n) = scheduled n" "opcode (cleared env n) = opcode n"
  "outlinks (cleared env n) = outlinks n" "op_owner (cleared env n) = op_owner n"
  by (simp_all add: cleared_def)

section \<open>Everything reachable from the entry set is tagged\<close>

inductive reachable :: "Depsgraph \<Rightarrow> nat \<Rightarrow> bool" for g :: Depsgraph where
  entry: "e \<in> set (entry_tags g) \<Longrightarrow> reachable g e"
| link: "reachable g p \<Longrightarrow> valid_op g p \<Longrightarrow> t \<in> set (outlinks (operations g ! p)) \<Longrightarrow> reachable g t"

definition needs_update :: "flush_env \<Rightarrow> Depsgraph \<Rightarrow> nat \<Rightarrow> bool" where
  "needs_update env g p \<longleftrightarrow>
     flag (operations g ! p) AND DEPSOP_FLAG_NEEDS_UPDATE env = DEPSOP_FLAG_NEEDS_UPDATE env"

definition reach_inv :: "flush_env \<Rightarrow> nat option \<Rightarrow> flush_state \<Rightarrow> bool" where
  "reach_inv env op_node s \<longleftrightarrow>
     (\<forall>p. valid_op (graph s) p \<and> scheduled (operations (graph s) ! p)
            \<and> p \<notin> set (queue s) \<and> op_node \<noteq> Some p \<longrightarrow>
          needs_update env (graph s) p
        \<and> (\<forall>t \<in> set (outlinks (operations (graph s) ! p)).
              valid_op (graph s) t \<and> scheduled (operations (graph s) ! t)))"

lemma word_or_and_absorb: "(w OR m) AND m = (m :: 32 word)"
  by (simp add: bit_eq_iff bit_simps)

lemma word_and_or_keep: "w AND m = m \<Longrightarrow> (w OR x) AND m = (m :: 32 word)"
proof -
  assume a: "w AND m = m"
  have "(w OR x) AND m = (w AND m) OR (x AND m)" by (auto simp: bit_eq_iff bit_simps)
  also have "\<dots> = m OR (x AND m)" by (simp add: a)
  also have "\<dots> = m" by (auto simp: bit_eq_iff bit_simps)
  finally show ?thesis .
qed

lemma flush_schedule_children_loop_sched:
  "flush_schedule_children_loop rels r s = Some (r', s') \<Longrightarrow>
     (\<forall>x \<in> set rels. valid_op (graph s) x \<and> scheduled (operations (graph s') ! x))
   \<and> (\<forall>q. scheduled (operations (graph s) ! q) \<longrightarrow> scheduled (operations (graph s') ! q))
   \<and> (\<forall>q. scheduled (operations (graph s') ! q) \<longrightarrow>
          scheduled (operations (graph s) ! q) \<or> q \<in> set (queue s') \<or> r' = Some q)
   \<and> set (queue s) \<subseteq> set (queue s')
   \<and> (r \<noteq> None \<longrightarrow> r' = r)"
proof (induction rels r s rule: flush_schedule_children_loop.induct)
  case (1 result s)
  then show ?case by simp
next
  case (2 to_node rels result s)
  from 2(4) have v: "valid_op (graph s) to_node" by (auto split: if_splits)
  show ?case
  proof (cases "scheduled (operations (graph s) ! to_node)")
    case True
    with 2(4) v have "flush_schedule_children_loop rels result s = Some (r', s')" by simp
    from 2(1) [OF _ True this] v True show ?thesis by auto
  next
    case False
    show ?thesis
    proof (cases result)
      case None
      define s2 where "s2 = s\<lparr>graph := op_update to_node (\<lambda>n. n\<lparr>scheduled := True\<rparr>) (graph s),
               trace := trace s @ [Bypass_Child to_node]\<rparr>"
      from 2(4) v False None have l: "flush_schedule_children_loop rels (Some to_node) s2 = Some (r', s')"
        by (simp add: s2_def)
      note ih = 2(2) [OF _ False None l [unfolded s2_def], folded s2_def]
      have o2: "scheduled (operations (graph s2) ! q) = (q = to_node \<or> scheduled (operations (graph s) ! q))"
        for q using v by (auto simp: s2_def op_update_nth valid_op_def)
      have q2: "queue s2 = queue s" "valid_op (graph s2) = valid_op (graph s)"
        by (simp_all add: s2_def fun_eq_iff)
      from ih v show ?thesis
        unfolding o2 q2 using None by auto
    next
      case (Some a)
      define s2 where "s2 = s\<lparr>queue := to_node # queue s,
               graph := op_update to_node (\<lambda>n. n\<lparr>scheduled := True\<rparr>) (graph s),
               trace := trace s @ [Push_Front_Child to_node]\<rparr>"
      from 2(4) v False Some have l: "flush_schedule_children_loop rels result s2 = Some (r', s')"
        by (simp add: s2_def)
      note ih = 2(3) [OF _ False Some l [unfolded s2_def], folded s2_def]
      have o2: "scheduled (operations (graph s2) ! q) = (q = to_node \<or> scheduled (operations (graph s) ! q))"
        for q using v by (auto simp: s2_def op_update_nth valid_op_def)
      have q2: "queue s2 = to_node # queue s" "valid_op (graph s2) = valid_op (graph s)"
        by (simp_all add: s2_def fun_eq_iff)
      from ih v show ?thesis
        unfolding o2 q2 using Some by auto
    qed
  qed
qed


lemma flush_visit_footprint:
  assumes "flush_visit env p s = Some (r, s')"
  shows "needs_update env (graph s') p"
    and "needs_update env (graph s) q \<Longrightarrow> needs_update env (graph s') q"
    and "x \<in> set (outlinks (operations (graph s) ! p)) \<Longrightarrow>
           valid_op (graph s) x \<and> scheduled (operations (graph s') ! x)"
    and "scheduled (operations (graph s) ! q) \<Longrightarrow> scheduled (operations (graph s') ! q)"
    and "scheduled (operations (graph s') ! q) \<Longrightarrow>
           scheduled (operations (graph s) ! q) \<or> q \<in> set (queue s') \<or> r = Some q"
    and "set (queue s) \<subseteq> set (queue s')"
proof -
  from assms(1) obtain s1 s2 s3 where
    s1: "s1 = s\<lparr>graph := op_update p (\<lambda>n. n\<lparr>flag := flag n OR DEPSOP_FLAG_NEEDS_UPDATE env\<rparr>) (graph s),
             trace := trace s @ [Visit p]\<rparr>"
    and vp: "valid_op (graph s) p"
    and s2: "flush_handle_id_node env
           (comp_owner (comp_nodes (graph s) ! op_owner (operations (graph s) ! p))) s1 = Some s2"
    and s3: "flush_handle_component_node env
           (comp_owner (comp_nodes (graph s) ! op_owner (operations (graph s) ! p)))
           (op_owner (operations (graph s) ! p)) s2 = Some s3"
    and ch: "flush_schedule_children_loop (outlinks (operations (graph s) ! p)) None s3 = Some (r, s')"
    by (rule flush_visit_stages)
  note o2 = flush_handle_id_node_frame(1) [OF s2]
  note o3 = flush_handle_component_node_operations [OF s3]
  note f4 = flush_schedule_children_loop_frame(4) [OF ch]
  note c4 = flush_schedule_children_loop_sched [OF ch]
  have sc3: "scheduled (operations (graph s3) ! k) = scheduled (operations (graph s) ! k)" for k
    by (simp add: o3 o2 s1 op_update_nth)
  have keep3: "needs_update env (graph s3) k" if "needs_update env (graph s1) k" for k
    using that by (simp add: needs_update_def o3 o2 word_and_or_keep)
  have keep4: "needs_update env (graph s') k" if "needs_update env (graph s3) k" for k
    using that by (simp add: needs_update_def f4)
  have "needs_update env (graph s1) p"
    using vp by (simp add: needs_update_def s1 op_update_nth valid_op_def word_or_and_absorb)
  then show "needs_update env (graph s') p" by (intro keep4 keep3)
  show "needs_update env (graph s') q" if "needs_update env (graph s) q"
  proof -
    from that have "needs_update env (graph s1) q"
      by (simp add: needs_update_def s1 op_update_nth word_and_or_keep)
    then show ?thesis by (intro keep4 keep3)
  qed
  have v3: "valid_op (graph s3) = valid_op (graph s)"
    using shape_valid(1) [OF flush_handle_component_node_shape [OF s3]]
      shape_valid(1) [OF flush_handle_id_node_shape [OF s2]]
    by (simp add: fun_eq_iff s1)
  show "valid_op (graph s) x \<and> scheduled (operations (graph s') ! x)"
    if "x \<in> set (outlinks (operations (graph s) ! p))"
    using c4 that by (simp add: v3)
  show "scheduled (operations (graph s') ! q)" if "scheduled (operations (graph s) ! q)"
    using c4 that by (simp add: sc3)
  show "scheduled (operations (graph s) ! q) \<or> q \<in> set (queue s') \<or> r = Some q"
    if "scheduled (operations (graph s') ! q)"
    using c4 that by (auto simp: sc3)
  have "set (queue s2) \<subseteq> set (queue s3)"
    using s3 by (cases rule: flush_handle_component_node_cases) auto
  moreover have "queue s2 = queue s"
    using flush_handle_id_node_frame(4) [OF s2] by (simp add: s1)
  ultimately show "set (queue s) \<subseteq> set (queue s')" using c4 by auto
qed

lemma flush_visit_reach_inv:
  assumes "flush_visit env p s = Some (r, s')" "reach_inv env (Some p) s"
  shows "reach_inv env r s'"
  unfolding reach_inv_def
proof (intro allI impI)
  fix q
  assume a: "valid_op (graph s') q \<and> scheduled (operations (graph s') ! q)
      \<and> q \<notin> set (queue s') \<and> r \<noteq> Some q"
  note fp = flush_visit_footprint [OF assms(1)]
  note sh = flush_visit_shape [OF assms(1)]
  have vq: "valid_op (graph s) q" using a shape_valid(1) [OF sh] by simp
  have ol: "outlinks (operations (graph s') ! q) = outlinks (operations (graph s) ! q)"
    using shape_fields(2) [OF sh vq] .
  have sq: "scheduled (operations (graph s) ! q)" using fp(5) [of q] a by blast
  have nq: "q \<notin> set (queue s)" using fp(6) a by blast
  show "needs_update env (graph s') q
        \<and> (\<forall>t \<in> set (outlinks (operations (graph s') ! q)).
              valid_op (graph s') t \<and> scheduled (operations (graph s') ! t))"
  proof (cases "q = p")
    case True
    have "valid_op (graph s) t \<and> scheduled (operations (graph s') ! t)"
      if "t \<in> set (outlinks (operations (graph s) ! q))" for t
      using that fp(3) [of t] True by simp
    with fp(1) True show ?thesis
      unfolding ol shape_valid(1) [OF sh] by simp
  next
    case False
    from assms(2) have "valid_op (graph s) q \<and> scheduled (operations (graph s) ! q)
            \<and> q \<notin> set (queue s) \<and> Some p \<noteq> Some q \<longrightarrow>
          needs_update env (graph s) q
        \<and> (\<forall>t \<in> set (outlinks (operations (graph s) ! q)).
              valid_op (graph s) t \<and> scheduled (operations (graph s) ! t))"
      unfolding reach_inv_def by (rule spec)
    with False vq sq nq have old: "needs_update env (graph s) q"
      "\<And>t. t \<in> set (outlinks (operations (graph s) ! q)) \<Longrightarrow>
              valid_op (graph s) t \<and> scheduled (operations (graph s) ! t)"
      by simp_all
    have "needs_update env (graph s') q" using old(1) by (rule fp(2))
    moreover have "valid_op (graph s) t \<and> scheduled (operations (graph s') ! t)"
      if "t \<in> set (outlinks (operations (graph s) ! q))" for t
      using old(2) [OF that] fp(4) [of t] by simp
    ultimately show ?thesis
      unfolding ol shape_valid(1) [OF sh] by simp
  qed
qed

lemma reachable_entry_tags: "reachable g p \<Longrightarrow> entry_tags g \<noteq> []"
  by (induction rule: reachable.induct) auto

lemma reach_inv_all_queued:
  assumes "\<And>q. valid_op (graph t) q \<Longrightarrow> scheduled (operations (graph t) ! q) \<Longrightarrow> q \<in> set (queue t)"
  shows "reach_inv env a t"
  unfolding reach_inv_def
proof (intro allI impI)
  fix p
  assume "valid_op (graph t) p \<and> scheduled (operations (graph t) ! p)
            \<and> p \<notin> set (queue t) \<and> a \<noteq> Some p"
  with assms [of p] have False by simp
  then show "needs_update env (graph t) p
        \<and> (\<forall>x \<in> set (outlinks (operations (graph t) ! p)).
              valid_op (graph t) x \<and> scheduled (operations (graph t) ! x))" ..
qed


lemma reach_inv_pop:
  assumes "reach_inv env None t" "queue t = q # qs"
  shows "reach_inv env (Some q) (t\<lparr>queue := qs\<rparr>)"
proof -
  define t' where "t' = t\<lparr>queue := qs\<rparr>"
  have g: "graph t' = graph t" and qq: "queue t' = qs" by (simp_all add: t'_def)
  have "reach_inv env (Some q) t'"
    unfolding reach_inv_def g qq
  proof (intro allI impI)
    fix p
    assume a: "valid_op (graph t) p \<and> scheduled (operations (graph t) ! p)
        \<and> p \<notin> set qs \<and> Some q \<noteq> Some p"
    from assms(1) have "valid_op (graph t) p \<and> scheduled (operations (graph t) ! p)
            \<and> p \<notin> set (queue t) \<and> None \<noteq> Some p \<longrightarrow>
          needs_update env (graph t) p
        \<and> (\<forall>x \<in> set (outlinks (operations (graph t) ! p)).
              valid_op (graph t) x \<and> scheduled (operations (graph t) ! x))"
      unfolding reach_inv_def by (rule spec)
    moreover from a have "p \<notin> set (queue t)" unfolding assms(2) by auto
    ultimately show "needs_update env (graph t) p
        \<and> (\<forall>x \<in> set (outlinks (operations (graph t) ! p)).
              valid_op (graph t) x \<and> scheduled (operations (graph t) ! x))"
      using a by blast
  qed
  then show ?thesis by (simp add: t'_def)
qed


lemma deg_graph_flush_updates_reachable:
  assumes "deg_graph_flush_updates env g = Some s" "reachable g p"
  shows "valid_op g p \<and> scheduled (operations (graph s) ! p) \<and> needs_update env (graph s) p"
proof -
  from assms(2) have ne: "entry_tags g \<noteq> []" by (rule reachable_entry_tags)
  from assms(1) ne obtain g1 s1 where g1: "flush_prepare g = Some g1"
    and s1: "flush_schedule_entrypoints \<lparr>graph = g1, queue = [], trace = []\<rparr> = Some s1"
    and l: "flush_loop env None s1 = Some s"
    by (rule deg_graph_flush_updates_stages)
  note p = flush_prepare_effect [OF g1]
  note e = flush_schedule_entrypoints_effect [OF s1]
  note sh1 = flush_prepare_shape [OF g1]
  have sh2: "shape (graph s1) = shape g"
    using flush_schedule_entrypoints_loop_shape [of "entry_tags g1" "\<lparr>graph = g1, queue = [], trace = []\<rparr>" s1]
      s1 sh1
    by (simp add: flush_schedule_entrypoints_def)
  have ve: "valid_op g x" if "x \<in> set (entry_tags g)" for x
    using flush_schedule_entrypoints_loop_valid [of "entry_tags g1" "\<lparr>graph = g1, queue = [], trace = []\<rparr>" s1]
      s1 that shape_valid(1) [OF sh1]
    by (simp add: flush_schedule_entrypoints_def p(1))
  define I where "I = (\<lambda>(a :: nat option) (t :: flush_state).
      reach_inv env a t \<and> shape (graph t) = shape g
    \<and> (\<forall>x \<in> set (entry_tags g). scheduled (operations (graph t) ! x)))"
  have "I None s \<and> queue s = []"
    using l
  proof (rule flush_loop_rule [where I = I])
    have "q \<in> set (queue s1)" if "valid_op (graph s1) q" "scheduled (operations (graph s1) ! q)" for q
    proof (rule ccontr)
      assume "q \<notin> set (queue s1)"
      then have "q \<notin> set (entry_tags g1)" by (simp add: e(1))
      with that(2) have "scheduled (operations g1 ! q)" by (simp add: e(7))
      moreover have "q < length (operations g)"
        using that(1) shape_eqD(1) [OF sh2] by (simp add: valid_op_def)
      ultimately show False using p(3) [of q] by simp
    qed
    then have "reach_inv env None s1" by (rule reach_inv_all_queued)
    moreover have "\<forall>x \<in> set (entry_tags g). scheduled (operations (graph s1) ! x)"
      by (simp add: e(7) p(1))
    ultimately show "I None s1" using sh2 by (simp add: I_def)
  next
    fix q r and t t1 :: flush_state
    assume a: "I (Some q) t" "flush_visit env q t = Some (r, t1)"
    from a(1) have "reach_inv env (Some q) t" by (simp add: I_def)
    with a(2) have "reach_inv env r t1" by (rule flush_visit_reach_inv)
    moreover have "shape (graph t1) = shape g"
      using flush_visit_shape [OF a(2)] a(1) by (simp add: I_def)
    moreover have "\<forall>x \<in> set (entry_tags g). scheduled (operations (graph t1) ! x)"
      using a(1) flush_visit_footprint(4) [OF a(2)] by (simp add: I_def)
    ultimately show "I r t1" by (simp add: I_def)
  next
    fix q qs and t :: flush_state
    assume a: "I None t" "queue t = q # qs"
    from a(1) have "reach_inv env None t" by (simp add: I_def)
    then have "reach_inv env (Some q) (t\<lparr>queue := qs\<rparr>)" using a(2) by (rule reach_inv_pop)
    with a(1) show "I (Some q) (t\<lparr>queue := qs\<rparr>)" by (simp add: I_def)
  qed
  then have ri: "reach_inv env None s" and sh: "shape (graph s) = shape g"
    and es: "\<And>x. x \<in> set (entry_tags g) \<Longrightarrow> scheduled (operations (graph s) ! x)"
    and qe: "queue s = []"
    by (simp_all add: I_def)
  have closed: "needs_update env (graph s) q
        \<and> (\<forall>t \<in> set (outlinks (operations g ! q)).
              valid_op g t \<and> scheduled (operations (graph s) ! t))"
    if "valid_op g q" "scheduled (operations (graph s) ! q)" for q
  proof -
    from ri have "valid_op (graph s) q \<and> scheduled (operations (graph s) ! q)
            \<and> q \<notin> set (queue s) \<and> None \<noteq> Some q \<longrightarrow>
          needs_update env (graph s) q
        \<and> (\<forall>t \<in> set (outlinks (operations (graph s) ! q)).
              valid_op (graph s) t \<and> scheduled (operations (graph s) ! t))"
      unfolding reach_inv_def by (rule spec)
    with that show ?thesis
      using shape_fields(2) [OF sh that(1)] by (simp add: qe shape_valid(1) [OF sh])
  qed
  from assms(2) have "valid_op g p \<and> scheduled (operations (graph s) ! p)"
  proof (induction rule: reachable.induct)
    case (entry x)
    then show ?case using ve es by simp
  next
    case (link q t)
    with closed [of q] show ?case by simp
  qed
  with closed [of p] show ?thesis by simp
qed

section \<open>Which flags a flush changes\<close>

definition visited_ops :: "flush_event list \<Rightarrow> nat list" where
  "visited_ops tr = List.map_filter visited_op tr"

text \<open>
  An operation is touched by a flush when the loop visits it, or when the loop visits an
  operation of a component that owns it and it is not a particle settings evaluation.
\<close>

definition touched :: "Depsgraph \<Rightarrow> flush_event list \<Rightarrow> nat \<Rightarrow> bool" where
  "touched g tr q \<longleftrightarrow>
     q \<in> set (visited_ops tr)
   \<or> (\<exists>p \<in> set (visited_ops tr).
         q \<in> set (comp_operations (comp_nodes g ! op_owner (operations g ! p)))
       \<and> opcode (operations g ! q) \<noteq> DEG_OPCODE_PARTICLE_SETTINGS_EVAL)"

lemma visited_ops_iff: "p \<in> set (visited_ops tr) \<longleftrightarrow> 0 < occurrences visited_op p tr"
proof (induction tr)
  case Nil
  then show ?case by (simp add: visited_ops_def)
next
  case (Cons e tr)
  then show ?case by (cases e) (simp_all add: visited_ops_def)
qed

definition flag_inv :: "flush_env \<Rightarrow> Depsgraph \<Rightarrow> flush_state \<Rightarrow> bool" where
  "flag_inv env g s \<longleftrightarrow>
     shape (graph s) = shape g
   \<and> (\<forall>q. valid_op g q \<longrightarrow>
          flag (operations (graph s) ! q) = flag (operations g ! q)
        \<or> (touched g (trace s) q
           \<and> flag (operations (graph s) ! q)
               = flag (operations g ! q) OR DEPSOP_FLAG_NEEDS_UPDATE env))"

lemma word_or_or_idem: "(w OR m) OR m = (w OR m :: 32 word)"
  by simp

lemma tag_component_operations_valid:
  "tag_component_operations env ps g = Some g' \<Longrightarrow> \<forall>p \<in> set ps. valid_op g p"
proof (induction env ps g rule: tag_component_operations.induct)
  case (1 env g)
  then show ?case by simp
next
  case (2 env p ps g)
  from 2(3) have v: "valid_op g p" by (simp split: if_splits)
  show ?case
  proof (cases "opcode (operations g ! p) = DEG_OPCODE_PARTICLE_SETTINGS_EVAL")
    case True
    with 2(1,3) v show ?thesis by simp
  next
    case False
    with 2(2,3) v show ?thesis by simp
  qed
qed

lemma flush_visit_visited:
  assumes "flush_visit env p s = Some (r, s')"
  shows "occurrences visited_op q (trace s') = (if q = p then 1 else 0) + occurrences visited_op q (trace s)"
proof -
  from assms(1) obtain s1 s2 s3 where
    s1: "s1 = s\<lparr>graph := op_update p (\<lambda>n. n\<lparr>flag := flag n OR DEPSOP_FLAG_NEEDS_UPDATE env\<rparr>) (graph s),
             trace := trace s @ [Visit p]\<rparr>"
    and s2: "flush_handle_id_node env
           (comp_owner (comp_nodes (graph s) ! op_owner (operations (graph s) ! p))) s1 = Some s2"
    and s3: "flush_handle_component_node env
           (comp_owner (comp_nodes (graph s) ! op_owner (operations (graph s) ! p)))
           (op_owner (operations (graph s) ! p)) s2 = Some s3"
    and ch: "flush_schedule_children_loop (outlinks (operations (graph s) ! p)) None s3 = Some (r, s')"
    by (rule flush_visit_stages)
  show ?thesis
    using flush_schedule_children_loop_trace [OF ch, of visited_op q]
      flush_handle_component_node_trace(1) [OF s3, of visited_op q]
    by (simp add: flush_handle_id_node_trace [OF s2] s1)
qed

lemma flush_visit_flags:
  assumes "flush_visit env p s = Some (r, s')"
  shows "flag (operations (graph s') ! q) =
     (if q = p
         \<or> (q \<in> set (comp_operations (comp_nodes (graph s) ! op_owner (operations (graph s) ! p)))
            \<and> opcode (operations (graph s) ! q) \<noteq> DEG_OPCODE_PARTICLE_SETTINGS_EVAL
            \<and> comp_done (comp_nodes (graph s) ! op_owner (operations (graph s) ! p))
                 \<noteq> COMPONENT_STATE_DONE)
      then flag (operations (graph s) ! q) OR DEPSOP_FLAG_NEEDS_UPDATE env
      else flag (operations (graph s) ! q))"
proof -
  from assms(1) obtain s1 s2 s3 where
    s1: "s1 = s\<lparr>graph := op_update p (\<lambda>n. n\<lparr>flag := flag n OR DEPSOP_FLAG_NEEDS_UPDATE env\<rparr>) (graph s),
             trace := trace s @ [Visit p]\<rparr>"
    and vp: "valid_op (graph s) p"
    and s2: "flush_handle_id_node env
           (comp_owner (comp_nodes (graph s) ! op_owner (operations (graph s) ! p))) s1 = Some s2"
    and s3: "flush_handle_component_node env
           (comp_owner (comp_nodes (graph s) ! op_owner (operations (graph s) ! p)))
           (op_owner (operations (graph s) ! p)) s2 = Some s3"
    and ch: "flush_schedule_children_loop (outlinks (operations (graph s) ! p)) None s3 = Some (r, s')"
    by (rule flush_visit_stages)
  have c2: "comp_nodes (graph s2) = comp_nodes (graph s)"
    using flush_handle_id_node_frame(2) [OF s2] by (simp add: s1)
  have o2: "operations (graph s2) = operations (graph s1)"
    by (rule flush_handle_id_node_frame(1) [OF s2])
  have k1: "opcode (operations (graph s1) ! x) = opcode (operations (graph s) ! x)" for x
    by (simp add: s1 op_update_nth)
  have f1: "flag (operations (graph s1) ! x) =
      (if x = p then flag (operations (graph s) ! x) OR DEPSOP_FLAG_NEEDS_UPDATE env
       else flag (operations (graph s) ! x))" for x
    using vp by (simp add: s1 op_update_nth valid_op_def)
  show ?thesis
    unfolding flush_schedule_children_loop_frame(4) [OF ch]
      flush_handle_component_node_operations [OF s3] c2 o2
    by (simp add: k1 f1 word_or_or_idem)
qed

lemma flush_visit_flag_inv:
  assumes "flush_visit env p s = Some (r, s')" "flag_inv env g s"
  shows "flag_inv env g s'"
proof -
  from assms(2) have sh: "shape (graph s) = shape g"
    and old: "\<And>q. valid_op g q \<Longrightarrow>
          flag (operations (graph s) ! q) = flag (operations g ! q)
        \<or> (touched g (trace s) q
           \<and> flag (operations (graph s) ! q)
               = flag (operations g ! q) OR DEPSOP_FLAG_NEEDS_UPDATE env)"
    by (simp_all add: flag_inv_def)
  have sh': "shape (graph s') = shape g" using flush_visit_shape [OF assms(1)] sh by simp
  from assms(1) have vp: "valid_op (graph s) p"
    and vc: "valid_comp (graph s) (op_owner (operations (graph s) ! p))"
    by (auto elim: flush_visit_stages)
  have vp': "valid_op g p" using vp shape_valid(1) [OF sh] by simp
  have ow: "op_owner (operations (graph s) ! p) = op_owner (operations g ! p)"
    using shape_fields(3) [OF sh vp'] .
  have vc': "valid_comp g (op_owner (operations g ! p))"
    using vc shape_valid(2) [OF sh] by (simp add: ow)
  have co: "comp_operations (comp_nodes (graph s) ! op_owner (operations (graph s) ! p))
      = comp_operations (comp_nodes g ! op_owner (operations g ! p))"
    using shape_fields(5) [OF sh vc'] by (simp add: ow)
  have vis: "x \<in> set (visited_ops (trace s')) \<longleftrightarrow> x = p \<or> x \<in> set (visited_ops (trace s))" for x
    by (simp add: visited_ops_iff flush_visit_visited [OF assms(1)])
  have mono: "touched g (trace s') q" if "touched g (trace s) q" for q
    using that unfolding touched_def Bex_def vis by blast
  have "flag (operations (graph s') ! q) = flag (operations g ! q)
        \<or> (touched g (trace s') q
           \<and> flag (operations (graph s') ! q)
               = flag (operations g ! q) OR DEPSOP_FLAG_NEEDS_UPDATE env)"
    if vq: "valid_op g q" for q
  proof -
    have oc: "opcode (operations (graph s) ! q) = opcode (operations g ! q)"
      using shape_fields(1) [OF sh vq] .
    note fl = flush_visit_flags [OF assms(1), of q, unfolded co oc]
    show ?thesis
    proof (cases "q = p
         \<or> (q \<in> set (comp_operations (comp_nodes g ! op_owner (operations g ! p)))
            \<and> opcode (operations g ! q) \<noteq> DEG_OPCODE_PARTICLE_SETTINGS_EVAL
            \<and> comp_done (comp_nodes (graph s) ! op_owner (operations (graph s) ! p))
                 \<noteq> COMPONENT_STATE_DONE)")
      case True
      then have t: "touched g (trace s') q" unfolding touched_def Bex_def vis by blast
      from True fl have "flag (operations (graph s') ! q)
          = flag (operations (graph s) ! q) OR DEPSOP_FLAG_NEEDS_UPDATE env" by simp
      with old [OF vq] have "flag (operations (graph s') ! q)
          = flag (operations g ! q) OR DEPSOP_FLAG_NEEDS_UPDATE env"
        by (auto simp: word_or_or_idem)
      with t show ?thesis by simp
    next
      case False
      with fl have "flag (operations (graph s') ! q) = flag (operations (graph s) ! q)" by simp
      with old [OF vq] mono [of q] show ?thesis by auto
    qed
  qed
  with sh' show ?thesis by (simp add: flag_inv_def)
qed

lemma deg_graph_flush_updates_flag_inv:
  assumes "deg_graph_flush_updates env g = Some s"
  shows "flag_inv env g s"
proof (cases "entry_tags g = []")
  case True
  with assms show ?thesis by (auto simp: deg_graph_flush_updates_def flag_inv_def)
next
  case False
  from assms False obtain g1 s1 where g1: "flush_prepare g = Some g1"
    and s1: "flush_schedule_entrypoints \<lparr>graph = g1, queue = [], trace = []\<rparr> = Some s1"
    and l: "flush_loop env None s1 = Some s"
    by (rule deg_graph_flush_updates_stages)
  note p = flush_prepare_effect [OF g1]
  note e = flush_schedule_entrypoints_effect [OF s1]
  note sh1 = flush_prepare_shape [OF g1]
  have sh2: "shape (graph s1) = shape g"
    using flush_schedule_entrypoints_loop_shape [of "entry_tags g1" "\<lparr>graph = g1, queue = [], trace = []\<rparr>" s1]
      s1 sh1
    by (simp add: flush_schedule_entrypoints_def)
  have f1: "flag (operations (graph s1) ! q) = flag (operations g ! q)" if "valid_op g q" for q
    using that p(3) [of q] by (simp add: e(7) valid_op_def)
  have "flag_inv env g s \<and> queue s = []"
    using l
  proof (rule flush_loop_rule [where I = "\<lambda>a t. flag_inv env g t"])
    show "flag_inv env g s1" using sh2 f1 by (simp add: flag_inv_def)
  next
    fix q r and t t1 :: flush_state
    assume "flag_inv env g t" "flush_visit env q t = Some (r, t1)"
    then show "flag_inv env g t1" using flush_visit_flag_inv by blast
  next
    fix q qs and t :: flush_state
    assume "flag_inv env g t"
    then show "flag_inv env g (t\<lparr>queue := qs\<rparr>)" by (simp add: flag_inv_def)
  qed
  then show ?thesis ..
qed

lemma particle_settings_untouched:
  assumes "deg_graph_flush_updates env g = Some t" "valid_op g q"
    and "opcode (operations g ! q) = DEG_OPCODE_PARTICLE_SETTINGS_EVAL"
    and "q \<notin> set (visited_ops (trace t))"
  shows "flag (operations (graph t) ! q) = flag (operations g ! q)"
proof -
  from deg_graph_flush_updates_flag_inv [OF assms(1)] assms(2)
  have "flag (operations (graph t) ! q) = flag (operations g ! q)
        \<or> (touched g (trace t) q
           \<and> flag (operations (graph t) ! q)
               = flag (operations g ! q) OR DEPSOP_FLAG_NEEDS_UPDATE env)"
    by (simp add: flag_inv_def)
  moreover have "\<not> touched g (trace t) q" using assms(3,4) by (simp add: touched_def)
  ultimately show ?thesis by simp
qed

section \<open>Where a flush can go\<close>

text \<open>
  Three places of the source hand an operation to the loop: the entry scheduler, which
  queues the entry set; \<^verbatim>\<open>flush_schedule_children\<close>, which takes the targets of the outbound
  links of the operation being visited; and the bone rule of the component handler, which
  queues the entry operation of the pose component of the entity when the component of the
  operation being visited is a bone. \<open>visitable g\<close> is the set these three rules span in
  the graph \<open>g\<close>.
\<close>

inductive visitable :: "Depsgraph \<Rightarrow> nat \<Rightarrow> bool" for g :: Depsgraph where
  entry: "e \<in> set (entry_tags g) \<Longrightarrow> visitable g e"
| link: "visitable g p \<Longrightarrow> valid_op g p \<Longrightarrow> t \<in> set (outlinks (operations g ! p)) \<Longrightarrow>
         visitable g t"
| pose: "visitable g p \<Longrightarrow> valid_op g p \<Longrightarrow> valid_comp g (op_owner (operations g ! p)) \<Longrightarrow>
         comp_type (comp_nodes g ! op_owner (operations g ! p)) = DEG_NODE_TYPE_BONE \<Longrightarrow>
         find_component (id_nodes g ! comp_owner (comp_nodes g ! op_owner (operations g ! p)))
           DEG_NODE_TYPE_EVAL_POSE = Some pc \<Longrightarrow>
         visitable g (entry_operation (comp_nodes g ! pc))"

lemma reachable_visitable: "reachable g p \<Longrightarrow> visitable g p"
  by (induction rule: reachable.induct) (auto intro: visitable.entry visitable.link)

lemma flush_schedule_children_loop_range:
  "flush_schedule_children_loop rels r s = Some (r', s') \<Longrightarrow>
     set (queue s') \<subseteq> set (queue s) \<union> set rels
   \<and> (\<forall>x. r' = Some x \<longrightarrow> r = Some x \<or> x \<in> set rels)"
proof (induction rels r s rule: flush_schedule_children_loop.induct)
  case (1 result s)
  then show ?case by simp
next
  case (2 to_node rels result s)
  from 2(4) have v: "valid_op (graph s) to_node" by (auto split: if_splits)
  show ?case
  proof (cases "scheduled (operations (graph s) ! to_node)")
    case True
    with 2(4) v have "flush_schedule_children_loop rels result s = Some (r', s')" by simp
    from 2(1) [OF _ True this] v show ?thesis by auto
  next
    case False
    show ?thesis
    proof (cases result)
      case None
      define s2 where "s2 = s\<lparr>graph := op_update to_node (\<lambda>n. n\<lparr>scheduled := True\<rparr>) (graph s),
               trace := trace s @ [Bypass_Child to_node]\<rparr>"
      from 2(4) v False None have l: "flush_schedule_children_loop rels (Some to_node) s2 = Some (r', s')"
        by (simp add: s2_def)
      note ih = 2(2) [OF _ False None l [unfolded s2_def], folded s2_def]
      have q2: "queue s2 = queue s" by (simp add: s2_def)
      from ih v show ?thesis unfolding q2 using None by auto
    next
      case (Some a)
      define s2 where "s2 = s\<lparr>queue := to_node # queue s,
               graph := op_update to_node (\<lambda>n. n\<lparr>scheduled := True\<rparr>) (graph s),
               trace := trace s @ [Push_Front_Child to_node]\<rparr>"
      from 2(4) v False Some have l: "flush_schedule_children_loop rels result s2 = Some (r', s')"
        by (simp add: s2_def)
      note ih = 2(3) [OF _ False Some l [unfolded s2_def], folded s2_def]
      have q2: "queue s2 = to_node # queue s" by (simp add: s2_def)
      from ih v show ?thesis unfolding q2 using Some by auto
    qed
  qed
qed

lemma flush_visit_valid:
  assumes "flush_visit env p s = Some (r, s')"
  shows "valid_op (graph s) p"
    and "valid_comp (graph s) (op_owner (operations (graph s) ! p))"
    and "valid_id (graph s) (comp_owner (comp_nodes (graph s) ! op_owner (operations (graph s) ! p)))"
proof -
  from assms(1) obtain s1 s2 where
    s1: "s1 = s\<lparr>graph := op_update p (\<lambda>n. n\<lparr>flag := flag n OR DEPSOP_FLAG_NEEDS_UPDATE env\<rparr>) (graph s),
             trace := trace s @ [Visit p]\<rparr>"
    and vp: "valid_op (graph s) p"
    and vc: "valid_comp (graph s) (op_owner (operations (graph s) ! p))"
    and s2: "flush_handle_id_node env
           (comp_owner (comp_nodes (graph s) ! op_owner (operations (graph s) ! p))) s1 = Some s2"
    by (rule flush_visit_stages)
  show "valid_op (graph s) p" by (rule vp)
  show "valid_comp (graph s) (op_owner (operations (graph s) ! p))" by (rule vc)
  from s2 have "valid_id (graph s1)
      (comp_owner (comp_nodes (graph s) ! op_owner (operations (graph s) ! p)))"
    by (auto simp: flush_handle_id_node_def split: if_splits)
  then show "valid_id (graph s) (comp_owner (comp_nodes (graph s) ! op_owner (operations (graph s) ! p)))"
    by (simp add: s1)
qed

text \<open>What one iteration of the inner loop can put into the queue, and what it can return.\<close>

lemma flush_visit_range:
  assumes "flush_visit env p s = Some (r, s')"
  shows "x \<in> set (queue s') \<Longrightarrow>
           x \<in> set (queue s) \<or> x \<in> set (outlinks (operations (graph s) ! p))
         \<or> (comp_type (comp_nodes (graph s) ! op_owner (operations (graph s) ! p)) = DEG_NODE_TYPE_BONE
            \<and> (\<exists>pc. find_component
                       (id_nodes (graph s) ! comp_owner (comp_nodes (graph s) ! op_owner (operations (graph s) ! p)))
                       DEG_NODE_TYPE_EVAL_POSE = Some pc
                   \<and> valid_comp (graph s) pc
                   \<and> x = entry_operation (comp_nodes (graph s) ! pc)))"
    and "r = Some x \<Longrightarrow> x \<in> set (outlinks (operations (graph s) ! p))"
proof -
  define c where "c = op_owner (operations (graph s) ! p)"
  define i where "i = comp_owner (comp_nodes (graph s) ! c)"
  from assms(1) obtain s1 s2 s3 where
    s1: "s1 = s\<lparr>graph := op_update p (\<lambda>n. n\<lparr>flag := flag n OR DEPSOP_FLAG_NEEDS_UPDATE env\<rparr>) (graph s),
             trace := trace s @ [Visit p]\<rparr>"
    and s2: "flush_handle_id_node env i s1 = Some s2"
    and s3: "flush_handle_component_node env i c s2 = Some s3"
    and ch: "flush_schedule_children_loop (outlinks (operations (graph s) ! p)) None s3 = Some (r, s')"
    unfolding c_def i_def by (rule flush_visit_stages)
  note vi = flush_visit_valid(3) [OF assms, folded c_def i_def]
  have c2: "comp_nodes (graph s2) = comp_nodes (graph s)"
    using flush_handle_id_node_frame(2) [OF s2] by (simp add: s1)
  have q2: "queue s2 = queue s"
    using flush_handle_id_node_frame(4) [OF s2] by (simp add: s1)
  have sh2: "shape (graph s2) = shape (graph s)"
    using flush_handle_id_node_shape [OF s2] by (simp add: s1)
  have f2: "find_component (id_nodes (graph s2) ! i) = find_component (id_nodes (graph s) ! i)"
    using shape_fields(9) [OF sh2 vi] by (simp add: find_component_def fun_eq_iff)
  have v2: "valid_comp (graph s2) = valid_comp (graph s)"
    using shape_valid(2) [OF sh2] by (simp add: fun_eq_iff)
  have q3: "y \<in> set (queue s) \<or> (comp_type (comp_nodes (graph s) ! c) = DEG_NODE_TYPE_BONE
            \<and> (\<exists>pc. find_component (id_nodes (graph s) ! i) DEG_NODE_TYPE_EVAL_POSE = Some pc
                   \<and> valid_comp (graph s) pc
                   \<and> y = entry_operation (comp_nodes (graph s) ! pc)))"
    if "y \<in> set (queue s3)" for y
    using s3
  proof (cases rule: flush_handle_component_node_cases)
    case handled
    with that q2 show ?thesis by simp
  next
    case plain
    with that q2 show ?thesis by simp
  next
    case (pose pc)
    from pose(3,4,5,10) that show ?thesis
      unfolding c2 f2 v2 q2 by auto
  qed
  note c4 = flush_schedule_children_loop_range [OF ch]
  show "x \<in> set (queue s) \<or> x \<in> set (outlinks (operations (graph s) ! p))
         \<or> (comp_type (comp_nodes (graph s) ! op_owner (operations (graph s) ! p)) = DEG_NODE_TYPE_BONE
            \<and> (\<exists>pc. find_component
                       (id_nodes (graph s) ! comp_owner (comp_nodes (graph s) ! op_owner (operations (graph s) ! p)))
                       DEG_NODE_TYPE_EVAL_POSE = Some pc
                   \<and> valid_comp (graph s) pc
                   \<and> x = entry_operation (comp_nodes (graph s) ! pc)))"
    if "x \<in> set (queue s')"
  proof -
    from c4 that have "x \<in> set (queue s3) \<or> x \<in> set (outlinks (operations (graph s) ! p))"
      by auto
    with q3 [of x] show ?thesis unfolding c_def i_def by blast
  qed
  show "x \<in> set (outlinks (operations (graph s) ! p))" if "r = Some x"
    using c4 that by simp
qed

definition range_inv :: "Depsgraph \<Rightarrow> nat option \<Rightarrow> flush_state \<Rightarrow> bool" where
  "range_inv g op_node s \<longleftrightarrow>
     shape (graph s) = shape g
   \<and> (\<forall>x \<in> set (queue s). visitable g x)
   \<and> (\<forall>x. op_node = Some x \<longrightarrow> visitable g x)
   \<and> (\<forall>x \<in> set (visited_ops (trace s)). visitable g x \<and> valid_op g x)"

lemma flush_visit_range_inv:
  assumes "flush_visit env p s = Some (r, s')" "range_inv g (Some p) s"
  shows "range_inv g r s'"
proof -
  from assms(2) have sh: "shape (graph s) = shape g"
    and qs: "\<And>x. x \<in> set (queue s) \<Longrightarrow> visitable g x"
    and vp: "visitable g p"
    and vs: "\<And>x. x \<in> set (visited_ops (trace s)) \<Longrightarrow> visitable g x \<and> valid_op g x"
    by (simp_all add: range_inv_def)
  have sh': "shape (graph s') = shape g" using flush_visit_shape [OF assms(1)] sh by simp
  note v = flush_visit_valid [OF assms(1)]
  have p: "valid_op g p" using v(1) shape_valid(1) [OF sh] by simp
  have ow: "op_owner (operations (graph s) ! p) = op_owner (operations g ! p)"
    using shape_fields(3) [OF sh p] .
  have ol: "outlinks (operations (graph s) ! p) = outlinks (operations g ! p)"
    using shape_fields(2) [OF sh p] .
  have c: "valid_comp g (op_owner (operations g ! p))"
    using v(2) shape_valid(2) [OF sh] by (simp add: ow)
  have ct: "comp_type (comp_nodes (graph s) ! op_owner (operations g ! p))
      = comp_type (comp_nodes g ! op_owner (operations g ! p))"
    using shape_fields(4) [OF sh c] .
  have co: "comp_owner (comp_nodes (graph s) ! op_owner (operations g ! p))
      = comp_owner (comp_nodes g ! op_owner (operations g ! p))"
    using shape_fields(6) [OF sh c] .
  have i: "valid_id g (comp_owner (comp_nodes g ! op_owner (operations g ! p)))"
    using v(3) shape_valid(3) [OF sh] by (simp add: ow co)
  have fc: "find_component (id_nodes (graph s) ! comp_owner (comp_nodes g ! op_owner (operations g ! p)))
      = find_component (id_nodes g ! comp_owner (comp_nodes g ! op_owner (operations g ! p)))"
    using shape_fields(9) [OF sh i] by (simp add: find_component_def fun_eq_iff)
  note rg = flush_visit_range [OF assms(1), unfolded ow ol ct co fc]
  have vis: "x \<in> set (visited_ops (trace s')) \<longleftrightarrow> x = p \<or> x \<in> set (visited_ops (trace s))" for x
    by (simp add: visited_ops_iff flush_visit_visited [OF assms(1)])
  have 1: "visitable g x" if "x \<in> set (queue s')" for x
  proof -
    from rg(1) [OF that] consider
      (old) "x \<in> set (queue s)"
    | (child) "x \<in> set (outlinks (operations g ! p))"
    | (bone) pc where "comp_type (comp_nodes g ! op_owner (operations g ! p)) = DEG_NODE_TYPE_BONE"
        "find_component (id_nodes g ! comp_owner (comp_nodes g ! op_owner (operations g ! p)))
           DEG_NODE_TYPE_EVAL_POSE = Some pc"
        "valid_comp (graph s) pc" "x = entry_operation (comp_nodes (graph s) ! pc)"
      by blast
    then show ?thesis
    proof cases
      case old
      then show ?thesis by (rule qs)
    next
      case child
      with vp p show ?thesis by (rule visitable.link)
    next
      case (bone pc)
      have "valid_comp g pc" using bone(3) shape_valid(2) [OF sh] by simp
      then have "entry_operation (comp_nodes (graph s) ! pc) = entry_operation (comp_nodes g ! pc)"
        by (rule shape_fields(7) [OF sh])
      with bone(4) have "x = entry_operation (comp_nodes g ! pc)" by simp
      with visitable.pose [OF vp p c bone(1,2)] show ?thesis by simp
    qed
  qed
  have 2: "visitable g x" if "r = Some x" for x
    using visitable.link [OF vp p rg(2) [OF that]] .
  have 3: "visitable g x \<and> valid_op g x" if "x \<in> set (visited_ops (trace s'))" for x
    using that vp p vs unfolding vis by blast
  from sh' 1 2 3 show ?thesis by (simp add: range_inv_def)
qed

lemma visited_ops_entries [simp]: "visited_ops (map Push_Back_Entry es) = []"
  by (induction es) (simp_all add: visited_ops_def)

lemma deg_graph_flush_updates_range:
  assumes "deg_graph_flush_updates env g = Some s" "x \<in> set (visited_ops (trace s))"
  shows "visitable g x \<and> valid_op g x"
proof (cases "entry_tags g = []")
  case True
  with assms show ?thesis by (auto simp: deg_graph_flush_updates_def visited_ops_def)
next
  case False
  from assms(1) False obtain g1 s1 where g1: "flush_prepare g = Some g1"
    and s1: "flush_schedule_entrypoints \<lparr>graph = g1, queue = [], trace = []\<rparr> = Some s1"
    and l: "flush_loop env None s1 = Some s"
    by (rule deg_graph_flush_updates_stages)
  note p = flush_prepare_effect [OF g1]
  note e = flush_schedule_entrypoints_effect [OF s1]
  note sh1 = flush_prepare_shape [OF g1]
  have sh2: "shape (graph s1) = shape g"
    using flush_schedule_entrypoints_loop_shape [of "entry_tags g1" "\<lparr>graph = g1, queue = [], trace = []\<rparr>" s1]
      s1 sh1
    by (simp add: flush_schedule_entrypoints_def)
  have "range_inv g None s \<and> queue s = []"
    using l
  proof (rule flush_loop_rule [where I = "range_inv g"])
    show "range_inv g None s1"
      using sh2 by (simp add: range_inv_def e(1,2) p(1) visitable.entry)
  next
    fix q r and t t1 :: flush_state
    assume "range_inv g (Some q) t" "flush_visit env q t = Some (r, t1)"
    then show "range_inv g r t1" using flush_visit_range_inv by blast
  next
    fix q qs and t :: flush_state
    assume "range_inv g None t" "queue t = q # qs"
    then show "range_inv g (Some q) (t\<lparr>queue := qs\<rparr>)" by (simp add: range_inv_def)
  qed
  with assms(2) show ?thesis by (simp add: range_inv_def)
qed

text \<open>
  So the flags a flush changes are bounded by the graph: the operation is one the loop can
  visit, or a component that owns it is the component of one.
\<close>

lemma deg_graph_flush_updates_flags_bounded:
  assumes "deg_graph_flush_updates env g = Some s" "valid_op g q"
  shows "flag (operations (graph s) ! q) = flag (operations g ! q)
       \<or> (flag (operations (graph s) ! q) = flag (operations g ! q) OR DEPSOP_FLAG_NEEDS_UPDATE env
          \<and> (visitable g q
             \<or> (\<exists>p. visitable g p \<and> valid_op g p
                  \<and> q \<in> set (comp_operations (comp_nodes g ! op_owner (operations g ! p)))
                  \<and> opcode (operations g ! q) \<noteq> DEG_OPCODE_PARTICLE_SETTINGS_EVAL)))"
proof -
  from deg_graph_flush_updates_flag_inv [OF assms(1)] assms(2)
  have a: "flag (operations (graph s) ! q) = flag (operations g ! q)
        \<or> (touched g (trace s) q
           \<and> flag (operations (graph s) ! q)
               = flag (operations g ! q) OR DEPSOP_FLAG_NEEDS_UPDATE env)"
    by (simp add: flag_inv_def)
  have v: "visitable g x \<and> valid_op g x" if "x \<in> set (visited_ops (trace s))" for x
    using assms(1) that by (rule deg_graph_flush_updates_range)
  show ?thesis using a v unfolding touched_def by blast
qed

section \<open>The components of the reachable operations are re-tagged\<close>

lemma flush_visit_comp_done:
  assumes "flush_visit env p s = Some (r, s')"
  shows "comp_done (comp_nodes (graph s') ! op_owner (operations (graph s) ! p)) = COMPONENT_STATE_DONE"
    and "comp_done (comp_nodes (graph s) ! d) = COMPONENT_STATE_DONE \<Longrightarrow>
           comp_done (comp_nodes (graph s') ! d) = COMPONENT_STATE_DONE"
    and "comp_done (comp_nodes (graph s') ! d) = COMPONENT_STATE_DONE \<Longrightarrow>
           d = op_owner (operations (graph s) ! p)
         \<or> comp_done (comp_nodes (graph s) ! d) = COMPONENT_STATE_DONE"
proof -
  define c where "c = op_owner (operations (graph s) ! p)"
  from assms(1) obtain s1 s2 s3 where
    s1: "s1 = s\<lparr>graph := op_update p (\<lambda>n. n\<lparr>flag := flag n OR DEPSOP_FLAG_NEEDS_UPDATE env\<rparr>) (graph s),
             trace := trace s @ [Visit p]\<rparr>"
    and s2: "flush_handle_id_node env (comp_owner (comp_nodes (graph s) ! c)) s1 = Some s2"
    and s3: "flush_handle_component_node env (comp_owner (comp_nodes (graph s) ! c)) c s2 = Some s3"
    and ch: "flush_schedule_children_loop (outlinks (operations (graph s) ! p)) None s3 = Some (r, s')"
    unfolding c_def by (rule flush_visit_stages)
  have c2: "comp_nodes (graph s2) = comp_nodes (graph s)"
    using flush_handle_id_node_frame(2) [OF s2] by (simp add: s1)
  have c4: "comp_nodes (graph s') = comp_nodes (graph s3)"
    by (rule flush_schedule_children_loop_frame(1) [OF ch])
  have "comp_done (comp_nodes (graph s3) ! c) = COMPONENT_STATE_DONE
      \<and> (comp_done (comp_nodes (graph s) ! d) = COMPONENT_STATE_DONE \<longrightarrow>
           comp_done (comp_nodes (graph s3) ! d) = COMPONENT_STATE_DONE)
      \<and> (comp_done (comp_nodes (graph s3) ! d) = COMPONENT_STATE_DONE \<longrightarrow>
           d = c \<or> comp_done (comp_nodes (graph s) ! d) = COMPONENT_STATE_DONE)"
    using s3
  proof (cases rule: flush_handle_component_node_cases)
    case handled
    then show ?thesis by (simp add: c2)
  next
    case plain
    then show ?thesis by (simp add: c2 comp_update_nth valid_comp_def)
  next
    case (pose pc)
    then show ?thesis by (auto simp: c2 comp_update_nth valid_comp_def)
  qed
  then show "comp_done (comp_nodes (graph s') ! op_owner (operations (graph s) ! p)) = COMPONENT_STATE_DONE"
    and "comp_done (comp_nodes (graph s) ! d) = COMPONENT_STATE_DONE \<Longrightarrow>
           comp_done (comp_nodes (graph s') ! d) = COMPONENT_STATE_DONE"
    and "comp_done (comp_nodes (graph s') ! d) = COMPONENT_STATE_DONE \<Longrightarrow>
           d = op_owner (operations (graph s) ! p)
         \<or> comp_done (comp_nodes (graph s) ! d) = COMPONENT_STATE_DONE"
    by (simp_all add: c4 c_def)
qed

text \<open>
  \<open>retag_inv env g c\<close>: every operation that was scheduled and is no longer pending has had
  its component handled, and once the component \<open>c\<close> is handled the operations it owns,
  the particle settings evaluations apart, have \<open>NEEDS_UPDATE\<close>.
\<close>

definition retag_inv :: "flush_env \<Rightarrow> Depsgraph \<Rightarrow> nat \<Rightarrow> nat option \<Rightarrow> flush_state \<Rightarrow> bool" where
  "retag_inv env g c op_node s \<longleftrightarrow>
     shape (graph s) = shape g
   \<and> (\<forall>p. valid_op g p \<and> scheduled (operations (graph s) ! p)
            \<and> p \<notin> set (queue s) \<and> op_node \<noteq> Some p \<longrightarrow>
          comp_done (comp_nodes (graph s) ! op_owner (operations g ! p)) = COMPONENT_STATE_DONE)
   \<and> (comp_done (comp_nodes (graph s) ! c) = COMPONENT_STATE_DONE \<longrightarrow>
        (\<forall>q \<in> set (comp_operations (comp_nodes g ! c)).
           opcode (operations g ! q) \<noteq> DEG_OPCODE_PARTICLE_SETTINGS_EVAL \<longrightarrow>
           needs_update env (graph s) q))"

lemma flush_visit_retag_inv:
  assumes "flush_visit env p s = Some (r, s')" "retag_inv env g c (Some p) s" "wf_struct env g"
  shows "retag_inv env g c r s'"
proof -
  from assms(2) have sh: "shape (graph s) = shape g"
    and old1: "\<And>x. valid_op g x \<Longrightarrow> scheduled (operations (graph s) ! x) \<Longrightarrow>
          x \<notin> set (queue s) \<Longrightarrow> x \<noteq> p \<Longrightarrow>
          comp_done (comp_nodes (graph s) ! op_owner (operations g ! x)) = COMPONENT_STATE_DONE"
    and old2: "\<And>q. comp_done (comp_nodes (graph s) ! c) = COMPONENT_STATE_DONE \<Longrightarrow>
          q \<in> set (comp_operations (comp_nodes g ! c)) \<Longrightarrow>
          opcode (operations g ! q) \<noteq> DEG_OPCODE_PARTICLE_SETTINGS_EVAL \<Longrightarrow>
          needs_update env (graph s) q"
    by (simp_all add: retag_inv_def)
  have sh': "shape (graph s') = shape g" using flush_visit_shape [OF assms(1)] sh by simp
  note v = flush_visit_valid [OF assms(1)]
  note fp = flush_visit_footprint [OF assms(1)]
  note cd = flush_visit_comp_done [OF assms(1)]
  have p: "valid_op g p" using v(1) shape_valid(1) [OF sh] by simp
  have ow: "op_owner (operations (graph s) ! p) = op_owner (operations g ! p)"
    using shape_fields(3) [OF sh p] .
  have vc: "valid_comp g (op_owner (operations g ! p))"
    using v(2) shape_valid(2) [OF sh] by (simp add: ow)
  have 1: "comp_done (comp_nodes (graph s') ! op_owner (operations g ! x)) = COMPONENT_STATE_DONE"
    if a: "valid_op g x" "scheduled (operations (graph s') ! x)" "x \<notin> set (queue s')" "r \<noteq> Some x"
    for x
  proof (cases "x = p")
    case True
    with cd(1) ow show ?thesis by simp
  next
    case False
    have "scheduled (operations (graph s) ! x)" using fp(5) [of x] a by blast
    moreover have "x \<notin> set (queue s)" using fp(6) a by blast
    ultimately have "comp_done (comp_nodes (graph s) ! op_owner (operations g ! x)) = COMPONENT_STATE_DONE"
      using old1 a(1) False by blast
    then show ?thesis by (rule cd(2))
  qed
  have 2: "needs_update env (graph s') q"
    if a: "comp_done (comp_nodes (graph s') ! c) = COMPONENT_STATE_DONE"
      "q \<in> set (comp_operations (comp_nodes g ! c))"
      "opcode (operations g ! q) \<noteq> DEG_OPCODE_PARTICLE_SETTINGS_EVAL"
    for q
  proof (cases "comp_done (comp_nodes (graph s) ! c) = COMPONENT_STATE_DONE")
    case True
    then have "needs_update env (graph s) q" using a(2,3) by (rule old2)
    then show ?thesis by (rule fp(2))
  next
    case False
    with cd(3) [OF a(1)] have c: "c = op_owner (operations g ! p)" by (simp add: ow)
    have q: "valid_op g q" using wf_struct_compD(2) [OF assms(3) vc] a(2) c by simp
    have co: "comp_operations (comp_nodes (graph s) ! op_owner (operations g ! p))
        = comp_operations (comp_nodes g ! op_owner (operations g ! p))"
      using shape_fields(5) [OF sh vc] .
    have oc: "opcode (operations (graph s) ! q) = opcode (operations g ! q)"
      using shape_fields(1) [OF sh q] .
    have "flag (operations (graph s') ! q)
        = flag (operations (graph s) ! q) OR DEPSOP_FLAG_NEEDS_UPDATE env"
      using flush_visit_flags [OF assms(1), of q, unfolded ow co oc] a(2,3) False c by simp
    then show ?thesis by (simp add: needs_update_def word_or_and_absorb)
  qed
  from sh' 1 2 show ?thesis by (simp add: retag_inv_def)
qed

lemma deg_graph_flush_updates_siblings:
  assumes "deg_graph_flush_updates env g = Some s" "wf_struct env g" "reachable g p"
    and "valid_id g i" "(t, op_owner (operations g ! p)) \<in> set (components (id_nodes g ! i))"
    and "q \<in> set (comp_operations (comp_nodes g ! op_owner (operations g ! p)))"
    and "opcode (operations g ! q) \<noteq> DEG_OPCODE_PARTICLE_SETTINGS_EVAL"
  shows "needs_update env (graph s) q"
proof -
  define c where "c = op_owner (operations g ! p)"
  from assms(3) have ne: "entry_tags g \<noteq> []" by (rule reachable_entry_tags)
  from assms(1) ne obtain g1 s1 where g1: "flush_prepare g = Some g1"
    and s1: "flush_schedule_entrypoints \<lparr>graph = g1, queue = [], trace = []\<rparr> = Some s1"
    and l: "flush_loop env None s1 = Some s"
    by (rule deg_graph_flush_updates_stages)
  note pe = flush_prepare_effect [OF g1]
  note e = flush_schedule_entrypoints_effect [OF s1]
  note sh1 = flush_prepare_shape [OF g1]
  have sh2: "shape (graph s1) = shape g"
    using flush_schedule_entrypoints_loop_shape [of "entry_tags g1" "\<lparr>graph = g1, queue = [], trace = []\<rparr>" s1]
      s1 sh1
    by (simp add: flush_schedule_entrypoints_def)
  have "c \<in> set (map snd (components (id_nodes g ! i)))"
    using assms(5) by (force simp: c_def)
  with g1 assms(4) have n1: "comp_done (comp_nodes g1 ! c) = COMPONENT_STATE_NONE"
    by (rule flush_prepare_none)
  have "retag_inv env g c None s \<and> queue s = []"
    using l
  proof (rule flush_loop_rule [where I = "retag_inv env g c"])
    have "x \<in> set (queue s1)" if "valid_op g x" "scheduled (operations (graph s1) ! x)" for x
    proof (rule ccontr)
      assume "x \<notin> set (queue s1)"
      then have "x \<notin> set (entry_tags g1)" by (simp add: e(1))
      with that(2) have "scheduled (operations g1 ! x)" by (simp add: e(7))
      moreover have "x < length (operations g)" using that(1) by (simp add: valid_op_def)
      ultimately show False using pe(3) [of x] by simp
    qed
    moreover have "comp_done (comp_nodes (graph s1) ! c) \<noteq> COMPONENT_STATE_DONE"
      using n1 by (simp add: e(3))
    ultimately show "retag_inv env g c None s1" using sh2 by (auto simp: retag_inv_def)
  next
    fix x r and t t1 :: flush_state
    assume "retag_inv env g c (Some x) t" "flush_visit env x t = Some (r, t1)"
    then show "retag_inv env g c r t1" using flush_visit_retag_inv assms(2) by blast
  next
    fix x xs and t :: flush_state
    assume "retag_inv env g c None t" "queue t = x # xs"
    then show "retag_inv env g c (Some x) (t\<lparr>queue := xs\<rparr>)" by (simp add: retag_inv_def)
  qed
  then have ri: "retag_inv env g c None s" and qe: "queue s = []" by simp_all
  from deg_graph_flush_updates_reachable [OF assms(1,3)]
  have "valid_op g p" "scheduled (operations (graph s) ! p)" by simp_all
  with ri qe have "comp_done (comp_nodes (graph s) ! c) = COMPONENT_STATE_DONE"
    by (simp add: retag_inv_def c_def)
  with ri assms(6,7) show ?thesis by (simp add: retag_inv_def c_def)
qed

section \<open>The pose entry of a reachable bone is tagged\<close>

lemma flush_handle_component_node_bone:
  assumes "flush_handle_component_node env i c s = Some s'"
    and "comp_done (comp_nodes (graph s) ! c) \<noteq> COMPONENT_STATE_DONE"
    and "comp_type (comp_nodes (graph s) ! c) = DEG_NODE_TYPE_BONE"
    and "find_component (id_nodes (graph s) ! i) DEG_NODE_TYPE_EVAL_POSE = Some pc"
  shows "comp_done (comp_nodes (graph s') ! pc) \<noteq> COMPONENT_STATE_NONE"
proof -
  define g1 where "g1 = comp_update c (\<lambda>n. n\<lparr>comp_done := COMPONENT_STATE_DONE\<rparr>) (graph s)"
  from assms(1,2) obtain g2 g3 where vc: "valid_comp (graph s) c"
    and g2: "flush_handle_cow env i c g1 = Some g2"
    and g3: "tag_component_operations env (comp_operations (comp_nodes g2 ! c)) g2 = Some g3"
    and s': "(if comp_type (comp_nodes g3 ! c) = DEG_NODE_TYPE_BONE
        then flush_handle_bone i (s\<lparr>graph := g3\<rparr>)
        else Some (s\<lparr>graph := g3\<rparr>)) = Some s'"
    by (auto simp: flush_handle_component_node_def g1_def split: if_splits Option.bind_splits)
  have c3: "comp_nodes g3 = comp_nodes g1" "id_nodes g3 = id_nodes (graph s)"
    using flush_handle_cow_frame [OF g2] tag_component_operations_frame [OF g3]
    by (simp_all add: g1_def)
  have t: "comp_type (comp_nodes g3 ! c) = DEG_NODE_TYPE_BONE"
    using vc assms(3) by (simp add: c3 g1_def comp_update_nth valid_comp_def)
  with s' have b: "flush_handle_bone i (s\<lparr>graph := g3\<rparr>) = Some s'" by simp
  from flush_handle_bone_trace [OF b] assms(4) have
    vpc: "valid_comp g3 pc"
    and e: "if comp_done (comp_nodes g3 ! pc) = COMPONENT_STATE_NONE
               then graph s' = comp_update pc (\<lambda>n. n\<lparr>comp_done := COMPONENT_STATE_SCHEDULED\<rparr>) g3
               else s' = s\<lparr>graph := g3\<rparr>"
    by (auto simp: c3 split: if_splits)
  show ?thesis
  proof (cases "comp_done (comp_nodes g3 ! pc) = COMPONENT_STATE_NONE")
    case True
    with e have "graph s' = comp_update pc (\<lambda>n. n\<lparr>comp_done := COMPONENT_STATE_SCHEDULED\<rparr>) g3"
      by simp
    with vpc show ?thesis by (simp add: comp_update_nth valid_comp_def)
  next
    case False
    with e have "s' = s\<lparr>graph := g3\<rparr>" by simp
    with False show ?thesis by simp
  qed
qed

lemma flush_handle_component_node_leaves_none:
  assumes "flush_handle_component_node env i c s = Some s'"
    and "comp_done (comp_nodes (graph s) ! d) = COMPONENT_STATE_NONE"
    and "comp_done (comp_nodes (graph s') ! d) \<noteq> COMPONENT_STATE_NONE"
  shows "d = c \<or> entry_operation (comp_nodes (graph s) ! d) \<in> set (queue s')"
  using assms(1)
proof (cases rule: flush_handle_component_node_cases)
  case handled
  with assms(2,3) show ?thesis by simp
next
  case plain
  with assms(2,3) show ?thesis by (auto simp: comp_update_nth split: if_splits)
next
  case (pose pc)
  with assms(2,3) show ?thesis by (auto simp: comp_update_nth split: if_splits)
qed

lemma flush_visit_pose:
  assumes "flush_visit env x s = Some (r, s')"
  shows "comp_done (comp_nodes (graph s) ! op_owner (operations (graph s) ! x)) \<noteq> COMPONENT_STATE_DONE \<Longrightarrow>
         comp_type (comp_nodes (graph s) ! op_owner (operations (graph s) ! x)) = DEG_NODE_TYPE_BONE \<Longrightarrow>
         find_component
           (id_nodes (graph s) ! comp_owner (comp_nodes (graph s) ! op_owner (operations (graph s) ! x)))
           DEG_NODE_TYPE_EVAL_POSE = Some pc \<Longrightarrow>
         comp_done (comp_nodes (graph s') ! pc) \<noteq> COMPONENT_STATE_NONE"
    and "comp_done (comp_nodes (graph s) ! d) = COMPONENT_STATE_NONE \<Longrightarrow>
         comp_done (comp_nodes (graph s') ! d) \<noteq> COMPONENT_STATE_NONE \<Longrightarrow>
         d = op_owner (operations (graph s) ! x)
       \<or> entry_operation (comp_nodes (graph s) ! d) \<in> set (queue s')"
    and "comp_done (comp_nodes (graph s) ! d) \<noteq> COMPONENT_STATE_NONE \<Longrightarrow>
         comp_done (comp_nodes (graph s') ! d) \<noteq> COMPONENT_STATE_NONE"
proof -
  define c where "c = op_owner (operations (graph s) ! x)"
  define i where "i = comp_owner (comp_nodes (graph s) ! c)"
  from assms(1) obtain s1 s2 s3 where
    s1: "s1 = s\<lparr>graph := op_update x (\<lambda>n. n\<lparr>flag := flag n OR DEPSOP_FLAG_NEEDS_UPDATE env\<rparr>) (graph s),
             trace := trace s @ [Visit x]\<rparr>"
    and s2: "flush_handle_id_node env i s1 = Some s2"
    and s3: "flush_handle_component_node env i c s2 = Some s3"
    and ch: "flush_schedule_children_loop (outlinks (operations (graph s) ! x)) None s3 = Some (r, s')"
    unfolding c_def i_def by (rule flush_visit_stages)
  note vi = flush_visit_valid(3) [OF assms, folded c_def i_def]
  have c2: "comp_nodes (graph s2) = comp_nodes (graph s)"
    using flush_handle_id_node_frame(2) [OF s2] by (simp add: s1)
  have sh2: "shape (graph s2) = shape (graph s)"
    using flush_handle_id_node_shape [OF s2] by (simp add: s1)
  have f2: "find_component (id_nodes (graph s2) ! i) = find_component (id_nodes (graph s) ! i)"
    using shape_fields(9) [OF sh2 vi] by (simp add: find_component_def fun_eq_iff)
  have c4: "comp_nodes (graph s') = comp_nodes (graph s3)"
    by (rule flush_schedule_children_loop_frame(1) [OF ch])
  have q4: "set (queue s3) \<subseteq> set (queue s')"
    using flush_schedule_children_loop_sched [OF ch] by simp
  show "comp_done (comp_nodes (graph s') ! pc) \<noteq> COMPONENT_STATE_NONE"
    if "comp_done (comp_nodes (graph s) ! op_owner (operations (graph s) ! x)) \<noteq> COMPONENT_STATE_DONE"
      "comp_type (comp_nodes (graph s) ! op_owner (operations (graph s) ! x)) = DEG_NODE_TYPE_BONE"
      "find_component
           (id_nodes (graph s) ! comp_owner (comp_nodes (graph s) ! op_owner (operations (graph s) ! x)))
           DEG_NODE_TYPE_EVAL_POSE = Some pc"
    using flush_handle_component_node_bone [OF s3, of pc] that [folded c_def i_def]
    by (simp add: c2 f2 c4)
  show "d = op_owner (operations (graph s) ! x)
       \<or> entry_operation (comp_nodes (graph s) ! d) \<in> set (queue s')"
    if "comp_done (comp_nodes (graph s) ! d) = COMPONENT_STATE_NONE"
      "comp_done (comp_nodes (graph s') ! d) \<noteq> COMPONENT_STATE_NONE"
    using flush_handle_component_node_leaves_none [OF s3, of d] that q4
    by (auto simp: c2 c4 c_def)
  show "comp_done (comp_nodes (graph s') ! d) \<noteq> COMPONENT_STATE_NONE"
    if "comp_done (comp_nodes (graph s) ! d) \<noteq> COMPONENT_STATE_NONE"
  proof -
    from flush_visit_done_le [OF assms]
    have "state_rank (comp_done (comp_nodes (graph s) ! d))
        \<le> state_rank (comp_done (comp_nodes (graph s') ! d))"
      by (simp add: done_le_def)
    with that show ?thesis by (cases "comp_done (comp_nodes (graph s) ! d)") auto
  qed
qed

text \<open>
  \<open>pose_tag_inv env g c pc\<close>, for a bone component \<open>c\<close> and the pose component \<open>pc\<close> of its
  entity: once \<open>c\<close> is handled \<open>pc\<close> is no longer at \<open>NONE\<close>, and once \<open>pc\<close> is no longer at
  \<open>NONE\<close> its entry operation is pending or has \<open>NEEDS_UPDATE\<close>.
\<close>

definition pose_tag_inv ::
  "flush_env \<Rightarrow> Depsgraph \<Rightarrow> nat \<Rightarrow> nat \<Rightarrow> nat option \<Rightarrow> flush_state \<Rightarrow> bool" where
  "pose_tag_inv env g c pc op_node s \<longleftrightarrow>
     shape (graph s) = shape g
   \<and> (\<forall>p. valid_op g p \<and> scheduled (operations (graph s) ! p)
            \<and> p \<notin> set (queue s) \<and> op_node \<noteq> Some p \<longrightarrow>
          comp_done (comp_nodes (graph s) ! op_owner (operations g ! p)) = COMPONENT_STATE_DONE)
   \<and> (comp_done (comp_nodes (graph s) ! c) = COMPONENT_STATE_DONE \<longrightarrow>
        comp_done (comp_nodes (graph s) ! pc) \<noteq> COMPONENT_STATE_NONE)
   \<and> (comp_done (comp_nodes (graph s) ! pc) \<noteq> COMPONENT_STATE_NONE \<longrightarrow>
        entry_operation (comp_nodes g ! pc) \<in> set (queue s)
      \<or> op_node = Some (entry_operation (comp_nodes g ! pc))
      \<or> needs_update env (graph s) (entry_operation (comp_nodes g ! pc)))"

lemma flush_visit_pose_tag_inv:
  assumes "flush_visit env x s = Some (r, s')" "pose_tag_inv env g c pc (Some x) s"
    and "valid_comp g c" "comp_type (comp_nodes g ! c) = DEG_NODE_TYPE_BONE"
    and "find_component (id_nodes g ! comp_owner (comp_nodes g ! c)) DEG_NODE_TYPE_EVAL_POSE = Some pc"
    and "valid_comp g pc" "valid_op g (entry_operation (comp_nodes g ! pc))"
    and "entry_operation (comp_nodes g ! pc) \<in> set (comp_operations (comp_nodes g ! pc))"
    and "opcode (operations g ! entry_operation (comp_nodes g ! pc)) \<noteq> DEG_OPCODE_PARTICLE_SETTINGS_EVAL"
  shows "pose_tag_inv env g c pc r s'"
proof -
  define e where "e = entry_operation (comp_nodes g ! pc)"
  from assms(2) have sh: "shape (graph s) = shape g"
    and old1: "\<And>y. valid_op g y \<Longrightarrow> scheduled (operations (graph s) ! y) \<Longrightarrow>
          y \<notin> set (queue s) \<Longrightarrow> y \<noteq> x \<Longrightarrow>
          comp_done (comp_nodes (graph s) ! op_owner (operations g ! y)) = COMPONENT_STATE_DONE"
    and old2: "comp_done (comp_nodes (graph s) ! c) = COMPONENT_STATE_DONE \<Longrightarrow>
          comp_done (comp_nodes (graph s) ! pc) \<noteq> COMPONENT_STATE_NONE"
    and old3: "comp_done (comp_nodes (graph s) ! pc) \<noteq> COMPONENT_STATE_NONE \<Longrightarrow>
          e \<in> set (queue s) \<or> x = e \<or> needs_update env (graph s) e"
    by (auto simp: pose_tag_inv_def e_def)
  have sh': "shape (graph s') = shape g" using flush_visit_shape [OF assms(1)] sh by simp
  note v = flush_visit_valid [OF assms(1)]
  note fp = flush_visit_footprint [OF assms(1)]
  note cd = flush_visit_comp_done [OF assms(1)]
  note ps = flush_visit_pose [OF assms(1)]
  have x: "valid_op g x" using v(1) shape_valid(1) [OF sh] by simp
  have ow: "op_owner (operations (graph s) ! x) = op_owner (operations g ! x)"
    using shape_fields(3) [OF sh x] .
  have vi: "valid_id g (comp_owner (comp_nodes g ! c))" if "c = op_owner (operations g ! x)"
    using v(3) shape_valid(3) [OF sh] shape_fields(6) [OF sh assms(3)] that by (simp add: ow)
  have 1: "comp_done (comp_nodes (graph s') ! op_owner (operations g ! y)) = COMPONENT_STATE_DONE"
    if a: "valid_op g y" "scheduled (operations (graph s') ! y)" "y \<notin> set (queue s')" "r \<noteq> Some y"
    for y
  proof (cases "y = x")
    case True
    with cd(1) ow show ?thesis by simp
  next
    case False
    have "scheduled (operations (graph s) ! y)" using fp(5) [of y] a by blast
    moreover have "y \<notin> set (queue s)" using fp(6) a by blast
    ultimately have "comp_done (comp_nodes (graph s) ! op_owner (operations g ! y)) = COMPONENT_STATE_DONE"
      using old1 a(1) False by blast
    then show ?thesis by (rule cd(2))
  qed
  have 2: "comp_done (comp_nodes (graph s') ! pc) \<noteq> COMPONENT_STATE_NONE"
    if a: "comp_done (comp_nodes (graph s') ! c) = COMPONENT_STATE_DONE"
  proof (cases "comp_done (comp_nodes (graph s) ! c) = COMPONENT_STATE_DONE")
    case True
    then have "comp_done (comp_nodes (graph s) ! pc) \<noteq> COMPONENT_STATE_NONE" by (rule old2)
    then show ?thesis by (rule ps(3))
  next
    case False
    with cd(3) [OF a] have c: "c = op_owner (operations g ! x)" by (simp add: ow)
    have ct: "comp_type (comp_nodes (graph s) ! c) = DEG_NODE_TYPE_BONE"
      using shape_fields(4) [OF sh assms(3)] assms(4) by simp
    have co: "comp_owner (comp_nodes (graph s) ! c) = comp_owner (comp_nodes g ! c)"
      using shape_fields(6) [OF sh assms(3)] .
    have fc: "find_component (id_nodes (graph s) ! comp_owner (comp_nodes g ! c)) DEG_NODE_TYPE_EVAL_POSE
        = Some pc"
      using shape_fields(9) [OF sh vi [OF c]] assms(5) by (simp add: find_component_def)
    show ?thesis
      using ps(1) [of pc] False ct fc by (simp add: ow c [symmetric] co)
  qed
  have eo: "entry_operation (comp_nodes (graph s) ! pc) = e"
    using shape_fields(7) [OF sh assms(6)] by (simp add: e_def)
  have 3: "e \<in> set (queue s') \<or> r = Some e \<or> needs_update env (graph s') e"
    if a: "comp_done (comp_nodes (graph s') ! pc) \<noteq> COMPONENT_STATE_NONE"
  proof (cases "comp_done (comp_nodes (graph s) ! pc) = COMPONENT_STATE_NONE")
    case False
    from old3 [OF False] consider "e \<in> set (queue s)" | "x = e" | "needs_update env (graph s) e"
      by blast
    then show ?thesis
    proof cases
      case 1
      with fp(6) show ?thesis by blast
    next
      case 2
      with fp(1) show ?thesis by simp
    next
      case 3
      then have "needs_update env (graph s') e" by (rule fp(2))
      then show ?thesis by simp
    qed
  next
    case True
    from ps(2) [OF True a] consider "pc = op_owner (operations g ! x)" | "e \<in> set (queue s')"
      by (auto simp: ow eo)
    then show ?thesis
    proof cases
      case 1
      have co: "comp_operations (comp_nodes (graph s) ! pc) = comp_operations (comp_nodes g ! pc)"
        using shape_fields(5) [OF sh assms(6)] .
      have oc: "opcode (operations (graph s) ! e) = opcode (operations g ! e)"
        using shape_fields(1) [OF sh assms(7)] by (simp add: e_def)
      have "flag (operations (graph s') ! e)
          = flag (operations (graph s) ! e) OR DEPSOP_FLAG_NEEDS_UPDATE env"
        using flush_visit_flags [OF assms(1), of e, unfolded ow 1 [symmetric] co oc]
          assms(8,9) True by (simp add: e_def)
      then show ?thesis by (simp add: needs_update_def word_or_and_absorb)
    next
      case 2
      then show ?thesis by simp
    qed
  qed
  from sh' 1 2 3 show ?thesis by (simp add: pose_tag_inv_def e_def)
qed

lemma deg_graph_flush_updates_pose_entry:
  assumes "deg_graph_flush_updates env g = Some s" "wf_struct env g" "reachable g p"
    and "valid_id g i" "(t, op_owner (operations g ! p)) \<in> set (components (id_nodes g ! i))"
    and "comp_type (comp_nodes g ! op_owner (operations g ! p)) = DEG_NODE_TYPE_BONE"
    and "find_component (id_nodes g ! comp_owner (comp_nodes g ! op_owner (operations g ! p)))
           DEG_NODE_TYPE_EVAL_POSE = Some pc"
    and "entry_operation (comp_nodes g ! pc) \<in> set (comp_operations (comp_nodes g ! pc))"
    and "opcode (operations g ! entry_operation (comp_nodes g ! pc)) \<noteq> DEG_OPCODE_PARTICLE_SETTINGS_EVAL"
  shows "needs_update env (graph s) (entry_operation (comp_nodes g ! pc))"
proof -
  define c where "c = op_owner (operations g ! p)"
  from assms(3) have ne: "entry_tags g \<noteq> []" by (rule reachable_entry_tags)
  from assms(1) ne obtain g1 s1 where g1: "flush_prepare g = Some g1"
    and s1: "flush_schedule_entrypoints \<lparr>graph = g1, queue = [], trace = []\<rparr> = Some s1"
    and l: "flush_loop env None s1 = Some s"
    by (rule deg_graph_flush_updates_stages)
  note pe = flush_prepare_effect [OF g1]
  note e = flush_schedule_entrypoints_effect [OF s1]
  note sh1 = flush_prepare_shape [OF g1]
  have sh2: "shape (graph s1) = shape g"
    using flush_schedule_entrypoints_loop_shape [of "entry_tags g1" "\<lparr>graph = g1, queue = [], trace = []\<rparr>" s1]
      s1 sh1
    by (simp add: flush_schedule_entrypoints_def)
  from deg_graph_flush_updates_reachable [OF assms(1,3)]
  have vp: "valid_op g p" and sp: "scheduled (operations (graph s) ! p)" by simp_all
  have vc: "valid_comp g c" unfolding c_def by (rule wf_struct_opD(1) [OF assms(2) vp])
  have vi: "valid_id g (comp_owner (comp_nodes g ! c))" by (rule wf_struct_compD(1) [OF assms(2) vc])
  note fc = assms(7) [folded c_def]
  have vpc: "valid_comp g pc" by (rule wf_struct_idD(1) [OF assms(2) vi fc])
  have ve: "valid_op g (entry_operation (comp_nodes g ! pc))"
    by (rule wf_struct_idD(3) [OF assms(2) vi fc])
  have "c \<in> set (map snd (components (id_nodes g ! i)))"
    using assms(5) by (force simp: c_def)
  with g1 assms(4) have n1: "comp_done (comp_nodes g1 ! c) = COMPONENT_STATE_NONE"
    by (rule flush_prepare_none)
  have "pc \<in> set (map snd (components (id_nodes g ! comp_owner (comp_nodes g ! c))))"
    using fc by (rule find_component_in)
  with g1 vi have n2: "comp_done (comp_nodes g1 ! pc) = COMPONENT_STATE_NONE"
    by (rule flush_prepare_none)
  have "pose_tag_inv env g c pc None s \<and> queue s = []"
    using l
  proof (rule flush_loop_rule [where I = "pose_tag_inv env g c pc"])
    have "x \<in> set (queue s1)" if "valid_op g x" "scheduled (operations (graph s1) ! x)" for x
    proof (rule ccontr)
      assume "x \<notin> set (queue s1)"
      then have "x \<notin> set (entry_tags g1)" by (simp add: e(1))
      with that(2) have "scheduled (operations g1 ! x)" by (simp add: e(7))
      moreover have "x < length (operations g)" using that(1) by (simp add: valid_op_def)
      ultimately show False using pe(3) [of x] by simp
    qed
    moreover have "comp_done (comp_nodes (graph s1) ! c) \<noteq> COMPONENT_STATE_DONE"
      "comp_done (comp_nodes (graph s1) ! pc) = COMPONENT_STATE_NONE"
      using n1 n2 by (simp_all add: e(3))
    ultimately show "pose_tag_inv env g c pc None s1" using sh2 by (auto simp: pose_tag_inv_def)
  next
    fix x r and t t1 :: flush_state
    assume "pose_tag_inv env g c pc (Some x) t" "flush_visit env x t = Some (r, t1)"
    then show "pose_tag_inv env g c pc r t1"
      using flush_visit_pose_tag_inv [OF _ _ vc assms(6) [folded c_def] fc vpc ve assms(8,9)]
      by blast
  next
    fix x xs and t :: flush_state
    assume "pose_tag_inv env g c pc None t" "queue t = x # xs"
    then show "pose_tag_inv env g c pc (Some x) (t\<lparr>queue := xs\<rparr>)"
      by (auto simp: pose_tag_inv_def)
  qed
  then have ri: "pose_tag_inv env g c pc None s" and qe: "queue s = []" by simp_all
  from ri qe vp sp have "comp_done (comp_nodes (graph s) ! c) = COMPONENT_STATE_DONE"
    by (simp add: pose_tag_inv_def c_def)
  with ri have "comp_done (comp_nodes (graph s) ! pc) \<noteq> COMPONENT_STATE_NONE"
    by (simp add: pose_tag_inv_def)
  with ri qe show ?thesis by (simp add: pose_tag_inv_def)
qed

text \<open>
  Between these bounds the result of a flush is not a function of the graph and of the
  entry set as a set. In the rig below the bone operation 0 and the operation 2 of the pose
  component are tagged, and the pose entry operation 1 drives operation 3. When the bone
  is visited first the bone rule queues operation 1, whose visit reaches operation 3;
  when operation 2 is visited first the pose component is already handled, the bone rule
  does nothing, and operation 3 is not reached.
\<close>

definition g_rig :: "nat list \<Rightarrow> Depsgraph" where
  "g_rig es =
     \<lparr>operations = [mk_op (DEG_OPCODE_OTHER 0) [] 0, mk_op (DEG_OPCODE_OTHER 1) [3] 1,
                    mk_op (DEG_OPCODE_OTHER 2) [] 1, mk_op (DEG_OPCODE_OTHER 3) [] 2],
      comp_nodes = [mk_comp DEG_NODE_TYPE_BONE [0] 0 0 False,
                    mk_comp DEG_NODE_TYPE_EVAL_POSE [1, 2] 0 1 False,
                    mk_comp (DEG_NODE_TYPE_OTHER 0) [3] 0 3 False],
      id_nodes = [mk_id [(DEG_NODE_TYPE_BONE, 0), (DEG_NODE_TYPE_EVAL_POSE, 1),
                         (DEG_NODE_TYPE_OTHER 0, 2)] True],
      entry_tags = es\<rparr>"

lemma flush_depends_on_entry_order:
  "wf_graph (example_env False) (g_rig [0, 2])
   \<and> wf_graph (example_env False) (g_rig [2, 0])
   \<and> map_option (\<lambda>s. map flag (operations (graph s)))
        (deg_graph_flush_updates (example_env False) (g_rig [0, 2])) = Some [1, 1, 1, 1]
   \<and> map_option (\<lambda>s. map flag (operations (graph s)))
        (deg_graph_flush_updates (example_env False) (g_rig [2, 0])) = Some [1, 1, 1, 0]"
  by code_simp

section \<open>The claims\<close>


text \<open>
  C6. When the entry set is empty, a flush returns at once: the graph it returns is the
  graph it was given, with every \<open>scheduled\<close> flag, \<open>done\<close> marker and flag bit as before,
  nothing is queued and no external collaborator is called.
\<close>

theorem flush_updates_empty_entry_set:
  "entry_tags g = [] \<Longrightarrow>
   deg_graph_flush_updates env g = Some \<lparr>graph = g, queue = [], trace = []\<rparr>"
  by (simp add: deg_graph_flush_updates_def)

theorem flush_updates_empty_entry_set_witness:
  "entry_tags g_flushed = []
   \<and> deg_graph_flush_updates (example_env True) g_flushed
       = Some \<lparr>graph = g_flushed, queue = [], trace = []\<rparr>
   \<and> map flag (operations g_flushed) = [7, 7, 7]"
  using flush_updates_empty_entry_set [of g_flushed "example_env True"]
  by (simp add: g_flushed_def g_chain_def mk_op_def)

text \<open>
  C9. Clearing the tags always succeeds, whether or not a flush came before. The graph it
  returns is the graph it was given with the \<open>DIRECTLY_MODIFIED\<close> and \<open>NEEDS_UPDATE\<close> bits
  cleared on every operation, nothing else changed on any node, and the entry set empty.
  So no operation of the result has either bit, and clearing the result again returns it
  unchanged: two calls in a row give what one call gives.
\<close>

theorem clear_tags_idempotent:
  "\<exists>g1. deg_graph_clear_tags env g = Some g1
     \<and> deg_graph_clear_tags env g1 = Some g1
     \<and> (deg_graph_clear_tags env g \<bind> deg_graph_clear_tags env) = deg_graph_clear_tags env g
     \<and> entry_tags g1 = []
     \<and> comp_nodes g1 = comp_nodes g
     \<and> id_nodes g1 = id_nodes g
     \<and> length (operations g1) = length (operations g)
     \<and> (\<forall>p < length (operations g).
           operations g1 ! p = (operations g ! p)\<lparr>flag := flag (operations g ! p)
             AND NOT (DEPSOP_FLAG_DIRECTLY_MODIFIED env OR DEPSOP_FLAG_NEEDS_UPDATE env)\<rparr>)
     \<and> (\<forall>n \<in> set (operations g1).
           flag n AND DEPSOP_FLAG_DIRECTLY_MODIFIED env = 0
         \<and> flag n AND DEPSOP_FLAG_NEEDS_UPDATE env = 0)"
proof -
  define g1 where "g1 = g\<lparr>operations := map (cleared env) (operations g), entry_tags := []\<rparr>"
  have 1: "deg_graph_clear_tags env g = Some g1"
    by (simp add: deg_graph_clear_tags_eq g1_def)
  have "map (cleared env) (operations g1) = operations g1"
    by (simp add: g1_def cleared_idem)
  then have 2: "deg_graph_clear_tags env g1 = Some g1"
    by (simp add: deg_graph_clear_tags_eq) (simp add: g1_def)
  from 1 2 have 3: "(deg_graph_clear_tags env g \<bind> deg_graph_clear_tags env)
      = deg_graph_clear_tags env g"
    by simp
  have 4: "entry_tags g1 = []" "comp_nodes g1 = comp_nodes g" "id_nodes g1 = id_nodes g"
    "length (operations g1) = length (operations g)"
    by (simp_all add: g1_def)
  have 5: "\<forall>p < length (operations g).
           operations g1 ! p = (operations g ! p)\<lparr>flag := flag (operations g ! p)
             AND NOT (DEPSOP_FLAG_DIRECTLY_MODIFIED env OR DEPSOP_FLAG_NEEDS_UPDATE env)\<rparr>"
    by (simp add: g1_def cleared_def)
  have 6: "\<forall>n \<in> set (operations g1).
           flag n AND DEPSOP_FLAG_DIRECTLY_MODIFIED env = 0
         \<and> flag n AND DEPSOP_FLAG_NEEDS_UPDATE env = 0"
    by (auto simp: g1_def cleared_flag)
  from 1 2 3 4 5 6 show ?thesis by blast
qed

theorem clear_tags_idempotent_witness:
  "\<exists>g1. deg_graph_clear_tags (example_env False) (g_flushed\<lparr>entry_tags := [1]\<rparr>) = Some g1
     \<and> deg_graph_clear_tags (example_env False) g1 = Some g1
     \<and> entry_tags g1 = []
     \<and> map flag (operations g1) = [4, 4, 4]
     \<and> map scheduled (operations g1) = [True, True, True]
     \<and> map outlinks (operations g1) = [[1], [2], []]
     \<and> comp_nodes g1 = comp_nodes g_flushed
     \<and> id_nodes g1 = id_nodes g_flushed
     \<and> map flag (operations g_flushed) = [7, 7, 7]"
proof -
  from clear_tags_idempotent [of "example_env False" "g_flushed\<lparr>entry_tags := [1]\<rparr>"]
  obtain g1 where
    a: "deg_graph_clear_tags (example_env False) (g_flushed\<lparr>entry_tags := [1]\<rparr>) = Some g1"
    and b: "deg_graph_clear_tags (example_env False) g1 = Some g1"
    and c: "entry_tags g1 = []"
      "comp_nodes g1 = comp_nodes (g_flushed\<lparr>entry_tags := [1]\<rparr>)"
      "id_nodes g1 = id_nodes (g_flushed\<lparr>entry_tags := [1]\<rparr>)"
    by blast
  have "map_option (\<lambda>g. (map flag (operations g), map scheduled (operations g),
            map outlinks (operations g)))
        (deg_graph_clear_tags (example_env False) (g_flushed\<lparr>entry_tags := [1]\<rparr>))
      = Some ([4, 4, 4], [True, True, True], [[1], [2], []])"
    by code_simp
  with a have d: "map flag (operations g1) = [4, 4, 4]"
    "map scheduled (operations g1) = [True, True, True]"
    "map outlinks (operations g1) = [[1], [2], []]"
    by simp_all
  have e: "map flag (operations g_flushed) = [7, 7, 7]" by code_simp
  from a b c d e show ?thesis by simp
qed

text \<open>
  C5. When the component handler handles a component, what it does to the operations is
  the blanket re-tag and nothing else: an operation the component owns gets \<open>NEEDS_UPDATE\<close>
  unless its kind is the particle settings evaluation, and every other operation, the
  particle settings ones the component owns among them, is left as it was. So over a whole
  flush a particle settings operation that the loop does not itself visit keeps its flags,
  whichever components are handled.
\<close>

theorem component_retag_skips_particle_settings:
  "(flush_handle_component_node env i c s = Some s'
      \<and> comp_done (comp_nodes (graph s) ! c) \<noteq> COMPONENT_STATE_DONE \<longrightarrow>
    operations (graph s') ! q =
     (if q \<in> set (comp_operations (comp_nodes (graph s) ! c))
         \<and> opcode (operations (graph s) ! q) \<noteq> DEG_OPCODE_PARTICLE_SETTINGS_EVAL
      then (operations (graph s) ! q)\<lparr>flag := flag (operations (graph s) ! q) OR DEPSOP_FLAG_NEEDS_UPDATE env\<rparr>
      else operations (graph s) ! q))
   \<and> (deg_graph_flush_updates env g = Some t \<and> valid_op g q
      \<and> opcode (operations g ! q) = DEG_OPCODE_PARTICLE_SETTINGS_EVAL
      \<and> q \<notin> set (visited_ops (trace t)) \<longrightarrow>
    flag (operations (graph t) ! q) = flag (operations g ! q))"
  using flush_handle_component_node_operations [of env i c s s' q]
    particle_settings_untouched [of env g t q]
  by simp

theorem component_retag_skips_particle_settings_witness:
  "(\<exists>s'. flush_handle_component_node (example_env False) 0 0
            \<lparr>graph = g_particles, queue = [], trace = []\<rparr> = Some s'
     \<and> comp_done (comp_nodes g_particles ! 0) \<noteq> COMPONENT_STATE_DONE
     \<and> flag (operations (graph s') ! 0) = 1
     \<and> flag (operations (graph s') ! 1) = 1
     \<and> flag (operations (graph s') ! 2) = 0
     \<and> flag (operations (graph s') ! 3) = 0)
   \<and> opcode (operations g_particles ! 2) = DEG_OPCODE_PARTICLE_SETTINGS_EVAL
   \<and> (\<exists>t. deg_graph_flush_updates (example_env False) g_particles = Some t
        \<and> valid_op g_particles 2 \<and> 2 \<notin> set (visited_ops (trace t))
        \<and> flag (operations (graph t) ! 2) = flag (operations g_particles ! 2))
   \<and> map_option (\<lambda>t. (visited_ops (trace t), map flag (operations (graph t))))
        (deg_graph_flush_updates (example_env False) g_particles) = Some ([0], [1, 1, 0, 0])"
proof -
  define s where "s = \<lparr>graph = g_particles, queue = [], trace = []\<rparr>"
  have "flush_handle_component_node (example_env False) 0 0 s \<noteq> None"
    unfolding s_def by code_simp
  then obtain s' where s': "flush_handle_component_node (example_env False) 0 0 s = Some s'"
    by blast
  have d: "comp_done (comp_nodes (graph s) ! 0) \<noteq> COMPONENT_STATE_DONE"
    by (simp add: s_def g_particles_def mk_comp_def)
  have "deg_graph_flush_updates (example_env False) g_particles \<noteq> None" by code_simp
  then obtain t where t: "deg_graph_flush_updates (example_env False) g_particles = Some t" by blast
  have n: "map_option (\<lambda>t. (visited_ops (trace t), map flag (operations (graph t))))
        (deg_graph_flush_updates (example_env False) g_particles) = Some ([0], [1, 1, 0, 0])"
    by code_simp
  with t have nv: "2 \<notin> set (visited_ops (trace t))" by simp
  have v: "valid_op g_particles 2" by code_simp
  have k: "opcode (operations g_particles ! 2) = DEG_OPCODE_PARTICLE_SETTINGS_EVAL" by code_simp
  note th = component_retag_skips_particle_settings
  from th [of "example_env False" 0 0 s s' _ g_particles t] s' d
  have step: "operations (graph s') ! q =
     (if q \<in> set (comp_operations (comp_nodes (graph s) ! 0))
         \<and> opcode (operations (graph s) ! q) \<noteq> DEG_OPCODE_PARTICLE_SETTINGS_EVAL
      then (operations (graph s) ! q)\<lparr>flag := flag (operations (graph s) ! q)
              OR DEPSOP_FLAG_NEEDS_UPDATE (example_env False)\<rparr>
      else operations (graph s) ! q)" for q
    by blast
  have f: "flag (operations (graph s') ! 0) = 1" "flag (operations (graph s') ! 1) = 1"
    "flag (operations (graph s') ! 2) = 0" "flag (operations (graph s') ! 3) = 0"
    by (simp_all add: step s_def g_particles_def mk_comp_def mk_op_def example_env_def)
  from th [of "example_env False" 0 0 s s' 2 g_particles t] t v k nv
  have w: "flag (operations (graph t) ! 2) = flag (operations g_particles ! 2)" by blast
  from s' d f k t v nv w n show ?thesis
    unfolding s_def by (simp add: g_particles_def)
qed

text \<open>
  C7. On a well-formed graph a flush returns, with an empty queue, and the number of
  insertions into the queue is at most the number of operation nodes plus the number of
  component nodes: an operation is scheduled once and a pose entry is pushed once for its
  component. The definition of the loop itself rests on the same count: its termination
  proof uses \<open>flush_measure\<close>, which every iteration decreases.
\<close>

theorem flush_updates_terminates:
  assumes "wf_graph env g"
  shows "\<exists>s. deg_graph_flush_updates env g = Some s
           \<and> queue s = []
           \<and> events_of inserted_op (trace s) \<le> length (operations g) + length (comp_nodes g)"
proof -
  from deg_graph_flush_updates_returns [OF assms] obtain s where
    s: "deg_graph_flush_updates env g = Some s" ..
  from assms have "distinct (entry_tags g)" by (simp add: wf_graph_def)
  with s flush_insertions_bounded deg_graph_flush_updates_queue show ?thesis by blast
qed

theorem flush_updates_terminates_witness:
  "wf_graph (example_env False) g_pose
   \<and> (\<exists>s. deg_graph_flush_updates (example_env False) g_pose = Some s
           \<and> queue s = []
           \<and> events_of inserted_op (trace s) \<le> length (operations g_pose) + length (comp_nodes g_pose))
   \<and> map_option (\<lambda>s. events_of inserted_op (trace s))
        (deg_graph_flush_updates (example_env False) g_pose) = Some 3"
proof -
  have wf: "wf_graph (example_env False) g_pose" by code_simp
  have n: "map_option (\<lambda>s. events_of inserted_op (trace s))
        (deg_graph_flush_updates (example_env False) g_pose) = Some 3"
    by code_simp
  from wf flush_updates_terminates [OF wf] n show ?thesis by blast
qed

text \<open>
  C4. In one flush the bone rule pushes the entry operation of a pose component at most
  once, however many bone components are handled, and a component whose entry operation
  was pushed is no longer at \<open>NONE\<close>. The rule itself looks up the pose sibling of the
  entity; when that component is at \<open>NONE\<close> it puts the component's entry operation at the
  front of the queue and moves the component to \<open>SCHEDULED\<close>, and otherwise it does nothing.
\<close>

theorem pose_entry_pushed_once:
  "(deg_graph_flush_updates env g = Some s \<longrightarrow>
      occurrences pose_component c (trace s) \<le> 1
    \<and> (occurrences pose_component c (trace s) = 1 \<longrightarrow>
         valid_comp (graph s) c \<and> comp_done (comp_nodes (graph s) ! c) \<noteq> COMPONENT_STATE_NONE))
   \<and> (flush_handle_bone i t = Some t' \<longrightarrow>
      (\<exists>pc. find_component (id_nodes (graph t) ! i) DEG_NODE_TYPE_EVAL_POSE = Some pc
           \<and> valid_comp (graph t) pc
           \<and> (if comp_done (comp_nodes (graph t) ! pc) = COMPONENT_STATE_NONE
               then trace t' = trace t @ [Push_Front_Pose pc (entry_operation (comp_nodes (graph t) ! pc))]
                  \<and> queue t' = entry_operation (comp_nodes (graph t) ! pc) # queue t
                  \<and> graph t' = comp_update pc (\<lambda>n. n\<lparr>comp_done := COMPONENT_STATE_SCHEDULED\<rparr>) (graph t)
               else t' = t)))"
proof -
  have "occurrences pose_component c (trace s) \<le> 1
    \<and> (occurrences pose_component c (trace s) = 1 \<longrightarrow>
         valid_comp (graph s) c \<and> comp_done (comp_nodes (graph s) ! c) \<noteq> COMPONENT_STATE_NONE)"
    if "deg_graph_flush_updates env g = Some s"
    using deg_graph_flush_updates_pose_inv [OF that]
    by (auto simp: pose_inv_def dest!: spec [of _ c] split: if_splits)
  then show ?thesis using flush_handle_bone_trace [of i t t'] by blast
qed

theorem pose_entry_pushed_once_witness:
  "(\<exists>s. deg_graph_flush_updates (example_env False) g_armature = Some s
        \<and> occurrences pose_component 2 (trace s) \<le> 1)
   \<and> map_option
        (\<lambda>s. (occurrences pose_component 2 (trace s), occurrences visited_op 1 (trace s),
              occurrences visited_op 3 (trace s), comp_done (comp_nodes (graph s) ! 2)))
        (deg_graph_flush_updates (example_env False) g_armature)
       = Some (1, 1, 1, COMPONENT_STATE_DONE)"
proof -
  have "deg_graph_flush_updates (example_env False) g_armature \<noteq> None" by code_simp
  then obtain s where s: "deg_graph_flush_updates (example_env False) g_armature = Some s" by blast
  have n: "map_option
        (\<lambda>s. (occurrences pose_component 2 (trace s), occurrences visited_op 1 (trace s),
              occurrences visited_op 3 (trace s), comp_done (comp_nodes (graph s) ! 2)))
        (deg_graph_flush_updates (example_env False) g_armature)
       = Some (1, 1, 1, COMPONENT_STATE_DONE)"
    by code_simp
  from s pose_entry_pushed_once [of "example_env False" g_armature s 2] n show ?thesis by blast
qed

text \<open>
  C1, as the claim states it, fails: when operation 0 of \<open>g_pose\<close> is flushed, the pose
  entry operation 2 is put into the queue as a child of operation 0 and again by the bone
  rule, and the inner loop runs for it twice.
\<close>

theorem pose_entry_inserted_twice:
  "wf_graph (example_env False) g_pose
   \<and> map_option (\<lambda>s. (occurrences inserted_op 2 (trace s), occurrences visited_op 2 (trace s)))
        (deg_graph_flush_updates (example_env False) g_pose) = Some (2, 2)"
  by code_simp

text \<open>
  C1, amended. An operation is scheduled, that is put into the queue by the entry
  scheduler or as a child, or taken as the child that by-passes the queue, with its
  \<open>scheduled\<close> flag set, at most once in a flush, and then its flag is set at the end.
  Every other insertion of an operation into the queue is a push of the bone rule, which
  neither reads nor sets the flag.
\<close>

theorem operations_scheduled_once:
  assumes "deg_graph_flush_updates env g = Some s" "distinct (entry_tags g)"
  shows "occurrences scheduled_op p (trace s) \<le> 1
       \<and> (occurrences scheduled_op p (trace s) = 1 \<longrightarrow> scheduled (operations (graph s) ! p))
       \<and> occurrences inserted_op p (trace s)
            \<le> occurrences scheduled_op p (trace s) + occurrences pose_entry_op p (trace s)"
proof (cases "entry_tags g = []")
  case True
  with assms(1) show ?thesis by (auto simp: deg_graph_flush_updates_def)
next
  case False
  from deg_graph_flush_updates_sched_inv [OF assms(1) False assms(2)]
  have "occurrences scheduled_op p (trace s) =
        (if valid_op (graph s) p \<and> scheduled (operations (graph s) ! p) then 1 else 0)"
    by (simp add: sched_inv_def)
  then show ?thesis
    using occurrences_inserted_le [of p "trace s"] by (simp split: if_splits)
qed

theorem operations_scheduled_once_witness:
  "distinct (entry_tags g_pose)
   \<and> (\<exists>s. deg_graph_flush_updates (example_env False) g_pose = Some s
        \<and> occurrences scheduled_op 2 (trace s) \<le> 1)
   \<and> map_option
        (\<lambda>s. (occurrences scheduled_op 2 (trace s), occurrences pose_entry_op 2 (trace s),
              occurrences inserted_op 2 (trace s)))
        (deg_graph_flush_updates (example_env False) g_pose)
       = Some (1, 1, 2)"
proof -
  have d: "distinct (entry_tags g_pose)" by (simp add: g_pose_def)
  have "deg_graph_flush_updates (example_env False) g_pose \<noteq> None" by code_simp
  then obtain s where s: "deg_graph_flush_updates (example_env False) g_pose = Some s" by blast
  have n: "map_option
        (\<lambda>s. (occurrences scheduled_op 2 (trace s), occurrences pose_entry_op 2 (trace s),
              occurrences inserted_op 2 (trace s)))
        (deg_graph_flush_updates (example_env False) g_pose)
       = Some (1, 1, 2)"
    by code_simp
  from d s operations_scheduled_once [OF s d, of 2] n show ?thesis by blast
qed

text \<open>
  C3, as the claim states it, fails: the entity of \<open>g_pose\<close> is reached, its evaluated copy
  is not expanded, and the editors are never notified, while each recalculation tag call
  is made once.
\<close>

theorem unexpanded_entity_not_notified:
  "wf_graph (example_env False) g_pose
   \<and> id_cow_expanded (id_nodes g_pose ! 0) = False
   \<and> map_option
        (\<lambda>s. (occurrences visited_op 0 (trace s), occurrences notified_id 0 (trace s),
              occurrences recalc_tagged_id 0 (trace s), occurrences recalc_data_tagged_id 0 (trace s)))
        (deg_graph_flush_updates (example_env False) g_pose)
       = Some (1, 0, 1, 1)"
  by code_simp

text \<open>
  C3, amended. In one flush no entity gets any of the three calls more than once. For the
  entity of an operation that the loop visits, each of the two recalculation tag calls is
  made exactly once, and the editor notification is made exactly once when the evaluated
  copy is expanded and not at all otherwise, however many of the entity's operations are
  visited.
\<close>

theorem entity_handled_once:
  assumes "deg_graph_flush_updates env g = Some s"
  shows "occurrences recalc_tagged_id i (trace s) \<le> 1
       \<and> occurrences recalc_data_tagged_id i (trace s) \<le> 1
       \<and> occurrences notified_id i (trace s) \<le> 1
       \<and> (0 < occurrences visited_op p (trace s) \<longrightarrow>
            occurrences recalc_tagged_id (entity_of g p) (trace s) = 1
          \<and> occurrences recalc_data_tagged_id (entity_of g p) (trace s) = 1
          \<and> occurrences notified_id (entity_of g p) (trace s) =
               (if id_cow_expanded (id_nodes g ! entity_of g p) then 1 else 0))"
proof (cases "entry_tags g = []")
  case True
  with assms show ?thesis by (auto simp: deg_graph_flush_updates_def)
next
  case False
  from deg_graph_flush_updates_id_inv [OF assms False] have i: "id_inv s" and v: "visit_inv s"
    by simp_all
  note sh = deg_graph_flush_updates_shape [OF assms]
  from i have le: "occurrences recalc_tagged_id i (trace s) \<le> 1"
    "occurrences recalc_data_tagged_id i (trace s) \<le> 1"
    "occurrences notified_id i (trace s) \<le> 1"
    by (simp_all add: id_inv_def)
  have "occurrences recalc_tagged_id (entity_of g p) (trace s) = 1
          \<and> occurrences recalc_data_tagged_id (entity_of g p) (trace s) = 1
          \<and> occurrences notified_id (entity_of g p) (trace s) =
               (if id_cow_expanded (id_nodes g ! entity_of g p) then 1 else 0)"
    if "0 < occurrences visited_op p (trace s)"
  proof -
    from v that have vs: "valid_op (graph s) p"
      "valid_comp (graph s) (op_owner (operations (graph s) ! p))"
      "valid_id (graph s) (entity_of (graph s) p)"
      "id_done (id_nodes (graph s) ! entity_of (graph s) p)"
      by (simp_all add: visit_inv_def)
    have vp: "valid_op g p" using vs(1) shape_valid(1) [OF sh] by simp
    have o: "op_owner (operations (graph s) ! p) = op_owner (operations g ! p)"
      using shape_fields(3) [OF sh vp] .
    have vc: "valid_comp g (op_owner (operations g ! p))"
      using vs(2) shape_valid(2) [OF sh] by (simp add: o)
    have e: "entity_of (graph s) p = entity_of g p"
      using shape_fields(6) [OF sh vc] by (simp add: entity_of_def o)
    have vi: "valid_id g (entity_of g p)" using vs(3) shape_valid(3) [OF sh] by (simp add: e)
    have x: "id_cow_expanded (id_nodes (graph s) ! entity_of g p)
        = id_cow_expanded (id_nodes g ! entity_of g p)"
      using shape_fields(10) [OF sh vi] .
    from i vs(3,4) show ?thesis
      unfolding id_inv_def e x [symmetric] by simp
  qed
  with le show ?thesis by blast
qed

theorem entity_handled_once_witness:
  "(\<exists>s. deg_graph_flush_updates (example_env False) g_chain = Some s
        \<and> 0 < occurrences visited_op 2 (trace s)
        \<and> occurrences notified_id (entity_of g_chain 2) (trace s) = 1)
   \<and> entity_of g_chain 2 = 0
   \<and> map_option
        (\<lambda>s. (map (\<lambda>p. occurrences visited_op p (trace s)) [0, 1, 2],
              occurrences notified_id 0 (trace s), occurrences recalc_tagged_id 0 (trace s),
              occurrences recalc_data_tagged_id 0 (trace s)))
        (deg_graph_flush_updates (example_env False) g_chain)
       = Some ([1, 1, 1], 1, 1, 1)"
proof -
  have "deg_graph_flush_updates (example_env False) g_chain \<noteq> None" by code_simp
  then obtain s where s: "deg_graph_flush_updates (example_env False) g_chain = Some s" by blast
  have n: "map_option
        (\<lambda>s. (map (\<lambda>p. occurrences visited_op p (trace s)) [0, 1, 2],
              occurrences notified_id 0 (trace s), occurrences recalc_tagged_id 0 (trace s),
              occurrences recalc_data_tagged_id 0 (trace s)))
        (deg_graph_flush_updates (example_env False) g_chain)
       = Some ([1, 1, 1], 1, 1, 1)"
    by code_simp
  have e: "entity_of g_chain 2 = 0" by code_simp
  have x: "id_cow_expanded (id_nodes g_chain ! entity_of g_chain 2)" by code_simp
  from n s have v: "0 < occurrences visited_op 2 (trace s)" by simp
  from entity_handled_once [OF s, of 0 2] v x
  have "occurrences notified_id (entity_of g_chain 2) (trace s) = 1" by simp
  with s v e n show ?thesis by blast
qed

text \<open>
  C8, as the claim states it, fails: the state reset is a step of the flush, and it moves
  a component that an earlier flush left at \<open>DONE\<close> back to \<open>NONE\<close>; component 1 of
  \<open>g_particles\<close> is not reached and is still at \<open>NONE\<close> when the flush returns.
\<close>

theorem reset_moves_done_to_none:
  "wf_graph (example_env False) g_particles
   \<and> comp_done (comp_nodes g_particles ! 1) = COMPONENT_STATE_DONE
   \<and> map_option (\<lambda>g. comp_done (comp_nodes g ! 1)) (flush_prepare g_particles)
       = Some COMPONENT_STATE_NONE
   \<and> map_option (\<lambda>s. comp_done (comp_nodes (graph s) ! 1))
        (deg_graph_flush_updates (example_env False) g_particles)
       = Some COMPONENT_STATE_NONE"
  by code_simp

text \<open>
  C8, amended. The state reset puts the components of every entity at \<open>NONE\<close>. After it,
  no iteration of the loop moves the \<open>done\<close> marker of any component backwards in the order
  \<open>NONE\<close>, \<open>SCHEDULED\<close>, \<open>DONE\<close>, and so the markers at the end of the flush are not behind
  the markers the reset left.
\<close>

theorem component_done_never_regresses_after_reset:
  "(flush_prepare g = Some g1 \<and> valid_id g i \<and> c \<in> set (map snd (components (id_nodes g ! i)))
      \<longrightarrow> comp_done (comp_nodes g1 ! c) = COMPONENT_STATE_NONE)
   \<and> (flush_visit env p t = Some (r, t') \<longrightarrow> done_le (graph t) (graph t'))
   \<and> (flush_prepare g = Some g1 \<and> deg_graph_flush_updates env g = Some s \<and> entry_tags g \<noteq> []
      \<longrightarrow> done_le g1 (graph s))"
  using flush_prepare_none [of g g1 i c] flush_visit_done_le [of env p t r t']
    deg_graph_flush_updates_done_le [of g g1 env s]
  by blast

theorem component_done_never_regresses_after_reset_witness:
  "(\<exists>g1 s. flush_prepare g_armature = Some g1
        \<and> deg_graph_flush_updates (example_env False) g_armature = Some s
        \<and> entry_tags g_armature \<noteq> []
        \<and> done_le g1 (graph s))
   \<and> (\<exists>r t'. flush_visit (example_env False) 1 \<lparr>graph = g_armature, queue = [], trace = []\<rparr>
                 = Some (r, t')
        \<and> done_le g_armature (graph t'))
   \<and> map_option (\<lambda>(r, t'). map comp_done (comp_nodes (graph t')))
        (flush_visit (example_env False) 1 \<lparr>graph = g_armature, queue = [], trace = []\<rparr>)
       = Some [COMPONENT_STATE_NONE, COMPONENT_STATE_DONE, COMPONENT_STATE_SCHEDULED,
               COMPONENT_STATE_NONE]
   \<and> map_option (\<lambda>s. map comp_done (comp_nodes (graph s)))
        (deg_graph_flush_updates (example_env False) g_armature)
       = Some [COMPONENT_STATE_DONE, COMPONENT_STATE_DONE, COMPONENT_STATE_DONE,
               COMPONENT_STATE_DONE]"
proof -
  have "flush_prepare g_armature \<noteq> None" by code_simp
  then obtain g1 where g1: "flush_prepare g_armature = Some g1" by blast
  have "deg_graph_flush_updates (example_env False) g_armature \<noteq> None" by code_simp
  then obtain s where s: "deg_graph_flush_updates (example_env False) g_armature = Some s" by blast
  have e: "entry_tags g_armature \<noteq> []" by (simp add: g_armature_def)
  have "flush_visit (example_env False) 1 \<lparr>graph = g_armature, queue = [], trace = []\<rparr> \<noteq> None"
    by code_simp
  then obtain r t' where v: "flush_visit (example_env False) 1 \<lparr>graph = g_armature, queue = [], trace = []\<rparr>
      = Some (r, t')" by auto
  note t = component_done_never_regresses_after_reset
    [of g_armature g1 0 2 "example_env False" 1 "\<lparr>graph = g_armature, queue = [], trace = []\<rparr>" r t' s]
  from t g1 s e have a: "done_le g1 (graph s)" by blast
  from t v have b: "done_le g_armature (graph t')" by simp
  have c: "map_option (\<lambda>(r, t'). map comp_done (comp_nodes (graph t')))
        (flush_visit (example_env False) 1 \<lparr>graph = g_armature, queue = [], trace = []\<rparr>)
       = Some [COMPONENT_STATE_NONE, COMPONENT_STATE_DONE, COMPONENT_STATE_SCHEDULED,
               COMPONENT_STATE_NONE]"
    by code_simp
  have d: "map_option (\<lambda>s. map comp_done (comp_nodes (graph s)))
        (deg_graph_flush_updates (example_env False) g_armature)
       = Some [COMPONENT_STATE_DONE, COMPONENT_STATE_DONE, COMPONENT_STATE_DONE,
               COMPONENT_STATE_DONE]"
    by code_simp
  from g1 s e a v b c d show ?thesis by blast
qed

text \<open>
  C10, as the claim states it, fails when copy-on-write mode is on: component 0 of
  \<open>g_particles\<close> depends on copy-on-write, so handling it tags the copy-on-write
  component, and operation 3 joins the entry set during the flush.
\<close>

theorem flush_adds_cow_operations_to_entry_set:
  "wf_graph (example_env True) g_particles
   \<and> entry_tags g_particles = [0]
   \<and> map_option (\<lambda>s. entry_tags (graph s)) (deg_graph_flush_updates (example_env True) g_particles)
       = Some [0, 3]"
  by code_simp

text \<open>
  C10, amended. A flush never removes an operation from the entry set, and leaves the
  entry set as it was when copy-on-write mode is off; when the mode is on, the entry set
  can only grow. Clearing the tags always succeeds and empties the entry set; on every
  operation it clears the \<open>DIRECTLY_MODIFIED\<close> and \<open>NEEDS_UPDATE\<close> bits, keeps every other
  bit of the flags and every other field, and it changes nothing else in the graph.
\<close>

theorem flush_keeps_entries_and_clear_empties:
  "(deg_graph_flush_updates env g = Some s \<longrightarrow>
      set (entry_tags g) \<subseteq> set (entry_tags (graph s))
    \<and> (\<not> use_copy_on_write env \<longrightarrow> entry_tags (graph s) = entry_tags g))
   \<and> deg_graph_clear_tags env g
       = Some (g\<lparr>operations := map (cleared env) (operations g), entry_tags := []\<rparr>)
   \<and> (bit (flag (cleared env n)) k \<longleftrightarrow>
        bit (flag n) k \<and> \<not> bit (DEPSOP_FLAG_DIRECTLY_MODIFIED env) k
          \<and> \<not> bit (DEPSOP_FLAG_NEEDS_UPDATE env) k)
   \<and> scheduled (cleared env n) = scheduled n \<and> opcode (cleared env n) = opcode n
   \<and> outlinks (cleared env n) = outlinks n \<and> op_owner (cleared env n) = op_owner n"
  using deg_graph_flush_updates_entry [of env g s] deg_graph_clear_tags_eq [of env g]
    cleared_bits [of env n k] cleared_fields [of env n]
  by (simp add: entry_grows_def)

theorem flush_keeps_entries_and_clear_empties_witness:
  "(\<exists>s. deg_graph_flush_updates (example_env False) g_particles = Some s
        \<and> \<not> use_copy_on_write (example_env False)
        \<and> entry_tags (graph s) = entry_tags g_particles)
   \<and> map_option (\<lambda>g. (map flag (operations g), entry_tags g))
        (deg_graph_clear_tags (example_env False) (g_flushed\<lparr>entry_tags := [1]\<rparr>))
       = Some ([4, 4, 4], [])
   \<and> map flag (operations g_flushed) = [7, 7, 7]"
proof -
  have "deg_graph_flush_updates (example_env False) g_particles \<noteq> None" by code_simp
  then obtain s where s: "deg_graph_flush_updates (example_env False) g_particles = Some s" by blast
  have c: "\<not> use_copy_on_write (example_env False)" by (simp add: example_env_def)
  note t = flush_keeps_entries_and_clear_empties
    [of "example_env False" g_particles s "mk_op (DEG_OPCODE_OTHER 0) [] 0" 0]
  from t s c have a: "entry_tags (graph s) = entry_tags g_particles" by blast
  have b: "map_option (\<lambda>g. (map flag (operations g), entry_tags g))
        (deg_graph_clear_tags (example_env False) (g_flushed\<lparr>entry_tags := [1]\<rparr>))
       = Some ([4, 4, 4], [])"
    by code_simp
  have d: "map flag (operations g_flushed) = [7, 7, 7]" by code_simp
  from s c a b d show ?thesis by blast
qed

text \<open>
  C2, as the claim states it, fails in its second half: operation 1 of \<open>g_particles\<close> has
  no inbound link and is not in the entry set, so it is not reachable, and the flush of
  operation 0 sets its \<open>NEEDS_UPDATE\<close> flag, because both are in the same component.
\<close>

theorem unreachable_sibling_gets_needs_update:
  "wf_graph (example_env False) g_particles
   \<and> \<not> reachable g_particles 1
   \<and> \<not> needs_update (example_env False) g_particles 1
   \<and> map_option (\<lambda>s. needs_update (example_env False) (graph s) 1)
        (deg_graph_flush_updates (example_env False) g_particles) = Some True"
proof -
  have "p = 0" if "reachable g_particles p" for p
    using that
    by (induction rule: reachable.induct) (simp_all add: g_particles_def mk_op_def)
  then have a: "\<not> reachable g_particles 1" by fastforce
  have b: "wf_graph (example_env False) g_particles" by code_simp
  have c: "\<not> needs_update (example_env False) g_particles 1" by code_simp
  have d: "map_option (\<lambda>s. needs_update (example_env False) (graph s) 1)
        (deg_graph_flush_updates (example_env False) g_particles) = Some True"
    by code_simp
  from a b c d show ?thesis by blast
qed

text \<open>
  C2, amended. On a well-formed graph a flush returns, and then:

  \<^item> every operation reachable from the entry set through outbound links has \<open>NEEDS_UPDATE\<close>;

  \<^item> so has every operation, the particle settings evaluations apart, owned by the component
    of a reachable operation, when that component is among the components of an entity,
    which is what makes the reset put it back to \<open>NONE\<close>;

  \<^item> so has the entry operation of the pose component of the entity of such a component
    when the component is a bone, provided the pose component owns its entry operation and
    this is not a particle settings evaluation;

  \<^item> and the graph bounds what the flush does to the flags: it leaves the flags of an
    operation as they were, or it has set \<open>NEEDS_UPDATE\<close> on them and changed no other bit,
    and this only on an operation the loop can visit (an operation of the entry set, the
    target of an outbound link of one the loop can visit, or the entry operation of the
    pose component of the entity of one that is in a bone component), or on an operation,
    not a particle settings evaluation, owned by the component of such an operation.
\<close>

theorem reachable_operations_need_update:
  assumes "wf_graph env g"
  shows "\<exists>s. deg_graph_flush_updates env g = Some s
     \<and> (\<forall>p. reachable g p \<longrightarrow> needs_update env (graph s) p)
     \<and> (\<forall>p q i t. reachable g p \<and> valid_id g i
            \<and> (t, op_owner (operations g ! p)) \<in> set (components (id_nodes g ! i))
            \<and> q \<in> set (comp_operations (comp_nodes g ! op_owner (operations g ! p)))
            \<and> opcode (operations g ! q) \<noteq> DEG_OPCODE_PARTICLE_SETTINGS_EVAL
          \<longrightarrow> needs_update env (graph s) q)
     \<and> (\<forall>p pc i t. reachable g p \<and> valid_id g i
            \<and> (t, op_owner (operations g ! p)) \<in> set (components (id_nodes g ! i))
            \<and> comp_type (comp_nodes g ! op_owner (operations g ! p)) = DEG_NODE_TYPE_BONE
            \<and> find_component (id_nodes g ! comp_owner (comp_nodes g ! op_owner (operations g ! p)))
                 DEG_NODE_TYPE_EVAL_POSE = Some pc
            \<and> entry_operation (comp_nodes g ! pc) \<in> set (comp_operations (comp_nodes g ! pc))
            \<and> opcode (operations g ! entry_operation (comp_nodes g ! pc))
                 \<noteq> DEG_OPCODE_PARTICLE_SETTINGS_EVAL
          \<longrightarrow> needs_update env (graph s) (entry_operation (comp_nodes g ! pc)))
     \<and> (\<forall>q. valid_op g q \<longrightarrow>
            flag (operations (graph s) ! q) = flag (operations g ! q)
          \<or> (flag (operations (graph s) ! q)
                = flag (operations g ! q) OR DEPSOP_FLAG_NEEDS_UPDATE env
             \<and> (visitable g q
                \<or> (\<exists>p. visitable g p \<and> valid_op g p
                     \<and> q \<in> set (comp_operations (comp_nodes g ! op_owner (operations g ! p)))
                     \<and> opcode (operations g ! q) \<noteq> DEG_OPCODE_PARTICLE_SETTINGS_EVAL))))"
proof -
  from deg_graph_flush_updates_returns [OF assms] obtain s where
    s: "deg_graph_flush_updates env g = Some s" ..
  from assms have wf: "wf_struct env g" by (simp add: wf_graph_def)
  have 1: "\<forall>p. reachable g p \<longrightarrow> needs_update env (graph s) p"
    using deg_graph_flush_updates_reachable [OF s] by blast
  have 2: "\<forall>p q i t. reachable g p \<and> valid_id g i
            \<and> (t, op_owner (operations g ! p)) \<in> set (components (id_nodes g ! i))
            \<and> q \<in> set (comp_operations (comp_nodes g ! op_owner (operations g ! p)))
            \<and> opcode (operations g ! q) \<noteq> DEG_OPCODE_PARTICLE_SETTINGS_EVAL
          \<longrightarrow> needs_update env (graph s) q"
    using deg_graph_flush_updates_siblings [OF s wf] by blast
  have 3: "\<forall>p pc i t. reachable g p \<and> valid_id g i
            \<and> (t, op_owner (operations g ! p)) \<in> set (components (id_nodes g ! i))
            \<and> comp_type (comp_nodes g ! op_owner (operations g ! p)) = DEG_NODE_TYPE_BONE
            \<and> find_component (id_nodes g ! comp_owner (comp_nodes g ! op_owner (operations g ! p)))
                 DEG_NODE_TYPE_EVAL_POSE = Some pc
            \<and> entry_operation (comp_nodes g ! pc) \<in> set (comp_operations (comp_nodes g ! pc))
            \<and> opcode (operations g ! entry_operation (comp_nodes g ! pc))
                 \<noteq> DEG_OPCODE_PARTICLE_SETTINGS_EVAL
          \<longrightarrow> needs_update env (graph s) (entry_operation (comp_nodes g ! pc))"
    using deg_graph_flush_updates_pose_entry [OF s wf] by blast
  have 4: "\<forall>q. valid_op g q \<longrightarrow>
            flag (operations (graph s) ! q) = flag (operations g ! q)
          \<or> (flag (operations (graph s) ! q)
                = flag (operations g ! q) OR DEPSOP_FLAG_NEEDS_UPDATE env
             \<and> (visitable g q
                \<or> (\<exists>p. visitable g p \<and> valid_op g p
                     \<and> q \<in> set (comp_operations (comp_nodes g ! op_owner (operations g ! p)))
                     \<and> opcode (operations g ! q) \<noteq> DEG_OPCODE_PARTICLE_SETTINGS_EVAL)))"
    using deg_graph_flush_updates_flags_bounded [OF s] by blast
  from s 1 2 3 4 show ?thesis by (intro exI [of _ s] conjI)
qed

theorem reachable_operations_need_update_witness:
  "wf_graph (example_env False) g_particles
   \<and> reachable g_particles 0
   \<and> \<not> visitable g_particles 3
   \<and> (\<exists>s. deg_graph_flush_updates (example_env False) g_particles = Some s
        \<and> needs_update (example_env False) (graph s) 0
        \<and> needs_update (example_env False) (graph s) 1
        \<and> flag (operations (graph s) ! 3) = flag (operations g_particles ! 3)
        \<and> map flag (operations (graph s)) = [1, 1, 0, 0])
   \<and> map flag (operations g_particles) = [0, 0, 0, 0]
   \<and> wf_graph (example_env False) g_armature
   \<and> reachable g_armature 1
   \<and> \<not> reachable g_armature 2
   \<and> (\<exists>s. deg_graph_flush_updates (example_env False) g_armature = Some s
        \<and> needs_update (example_env False) (graph s) 2
        \<and> map flag (operations (graph s)) = [1, 1, 1, 1])
   \<and> map flag (operations g_armature) = [0, 0, 0, 0]"
proof -
  have wf: "wf_graph (example_env False) g_particles" by code_simp
  have r0: "reachable g_particles 0" by (rule reachable.entry) (simp add: g_particles_def)
  have v0: "x = 0" if "visitable g_particles x" for x
    using that
    by (induction rule: visitable.induct) (simp_all add: g_particles_def mk_op_def mk_comp_def)
  then have nv: "\<not> visitable g_particles 3" by fastforce
  from reachable_operations_need_update [OF wf] obtain s where
    s: "deg_graph_flush_updates (example_env False) g_particles = Some s"
    and a: "\<And>p. reachable g_particles p \<Longrightarrow> needs_update (example_env False) (graph s) p"
    and b: "\<And>p q i t. reachable g_particles p \<Longrightarrow> valid_id g_particles i \<Longrightarrow>
            (t, op_owner (operations g_particles ! p)) \<in> set (components (id_nodes g_particles ! i)) \<Longrightarrow>
            q \<in> set (comp_operations (comp_nodes g_particles ! op_owner (operations g_particles ! p))) \<Longrightarrow>
            opcode (operations g_particles ! q) \<noteq> DEG_OPCODE_PARTICLE_SETTINGS_EVAL \<Longrightarrow>
            needs_update (example_env False) (graph s) q"
    and c: "\<And>q. valid_op g_particles q \<Longrightarrow>
            flag (operations (graph s) ! q) = flag (operations g_particles ! q)
          \<or> (flag (operations (graph s) ! q)
                = flag (operations g_particles ! q) OR DEPSOP_FLAG_NEEDS_UPDATE (example_env False)
             \<and> (visitable g_particles q
                \<or> (\<exists>p. visitable g_particles p \<and> valid_op g_particles p
                     \<and> q \<in> set (comp_operations (comp_nodes g_particles ! op_owner (operations g_particles ! p)))
                     \<and> opcode (operations g_particles ! q) \<noteq> DEG_OPCODE_PARTICLE_SETTINGS_EVAL)))"
    by blast
  have n0: "needs_update (example_env False) (graph s) 0" using r0 by (rule a)
  have n1: "needs_update (example_env False) (graph s) 1"
    by (rule b [OF r0, of 0 "DEG_NODE_TYPE_OTHER 0"])
       (simp_all add: g_particles_def mk_op_def mk_comp_def mk_id_def valid_id_def)
  have "\<not> (\<exists>p. visitable g_particles p \<and> valid_op g_particles p
         \<and> 3 \<in> set (comp_operations (comp_nodes g_particles ! op_owner (operations g_particles ! p)))
         \<and> opcode (operations g_particles ! 3) \<noteq> DEG_OPCODE_PARTICLE_SETTINGS_EVAL)"
  proof
    assume "\<exists>p. visitable g_particles p \<and> valid_op g_particles p
         \<and> 3 \<in> set (comp_operations (comp_nodes g_particles ! op_owner (operations g_particles ! p)))
         \<and> opcode (operations g_particles ! 3) \<noteq> DEG_OPCODE_PARTICLE_SETTINGS_EVAL"
    then obtain p where "visitable g_particles p"
      "3 \<in> set (comp_operations (comp_nodes g_particles ! op_owner (operations g_particles ! p)))"
      by blast
    with v0 [of p] show False by (simp add: g_particles_def mk_op_def mk_comp_def)
  qed
  moreover have "valid_op g_particles 3" by (simp add: valid_op_def g_particles_def)
  ultimately have f3: "flag (operations (graph s) ! 3) = flag (operations g_particles ! 3)"
    using c [of 3] nv by blast
  have "map_option (\<lambda>s. map flag (operations (graph s)))
        (deg_graph_flush_updates (example_env False) g_particles) = Some [1, 1, 0, 0]"
    by code_simp
  with s have fl: "map flag (operations (graph s)) = [1, 1, 0, 0]" by simp
  have f0: "map flag (operations g_particles) = [0, 0, 0, 0]" by code_simp
  have ex: "\<exists>s. deg_graph_flush_updates (example_env False) g_particles = Some s
        \<and> needs_update (example_env False) (graph s) 0
        \<and> needs_update (example_env False) (graph s) 1
        \<and> flag (operations (graph s) ! 3) = flag (operations g_particles ! 3)
        \<and> map flag (operations (graph s)) = [1, 1, 0, 0]"
    using s n0 n1 f3 fl by (intro exI [of _ s] conjI)
  have wfa: "wf_graph (example_env False) g_armature" by code_simp
  have ra: "x = 0 \<or> x = 1 \<or> x = 3" if "reachable g_armature x" for x
    using that
    by (induction rule: reachable.induct) (auto simp: g_armature_def mk_op_def)
  then have nr: "\<not> reachable g_armature 2" by fastforce
  have a0: "reachable g_armature 0" by (rule reachable.entry) (simp add: g_armature_def)
  have a1: "reachable g_armature 1"
    by (rule reachable.link [OF a0]) (simp_all add: g_armature_def mk_op_def valid_op_def)
  from reachable_operations_need_update [OF wfa] obtain sa where
    sa: "deg_graph_flush_updates (example_env False) g_armature = Some sa"
    and d: "\<And>p pc i t. reachable g_armature p \<Longrightarrow> valid_id g_armature i \<Longrightarrow>
            (t, op_owner (operations g_armature ! p)) \<in> set (components (id_nodes g_armature ! i)) \<Longrightarrow>
            comp_type (comp_nodes g_armature ! op_owner (operations g_armature ! p)) = DEG_NODE_TYPE_BONE \<Longrightarrow>
            find_component (id_nodes g_armature ! comp_owner (comp_nodes g_armature ! op_owner (operations g_armature ! p)))
                 DEG_NODE_TYPE_EVAL_POSE = Some pc \<Longrightarrow>
            entry_operation (comp_nodes g_armature ! pc) \<in> set (comp_operations (comp_nodes g_armature ! pc)) \<Longrightarrow>
            opcode (operations g_armature ! entry_operation (comp_nodes g_armature ! pc))
                 \<noteq> DEG_OPCODE_PARTICLE_SETTINGS_EVAL \<Longrightarrow>
            needs_update (example_env False) (graph sa) (entry_operation (comp_nodes g_armature ! pc))"
    by blast
  have "needs_update (example_env False) (graph sa) (entry_operation (comp_nodes g_armature ! 2))"
    by (rule d [OF a1, of 0 DEG_NODE_TYPE_BONE 2])
       (simp_all add: g_armature_def mk_op_def mk_comp_def mk_id_def valid_id_def find_component_def)
  then have n2: "needs_update (example_env False) (graph sa) 2"
    by (simp add: g_armature_def mk_comp_def)
  have "map_option (\<lambda>s. map flag (operations (graph s)))
        (deg_graph_flush_updates (example_env False) g_armature) = Some [1, 1, 1, 1]"
    by code_simp
  with sa have fla: "map flag (operations (graph sa)) = [1, 1, 1, 1]" by simp
  have exa: "\<exists>s. deg_graph_flush_updates (example_env False) g_armature = Some s
        \<and> needs_update (example_env False) (graph s) 2
        \<and> map flag (operations (graph s)) = [1, 1, 1, 1]"
    using sa n2 fla by (intro exI [of _ sa] conjI)
  have fa0: "map flag (operations g_armature) = [0, 0, 0, 0]" by code_simp
  from wf r0 nv ex f0 wfa a1 nr exa fa0 show ?thesis by (intro conjI)
qed

end
